theory Spec2Isabelle
  imports Complex_Main "HOL-Library.Sublist" "HOL-Library.Char_ord"
begin

section \<open>JavaScript strings\<close>

text \<open>
  A transcript is a JavaScript string.  It is modelled as a list of 8-bit characters: the
  code units u+0000 to u+00ff (ASCII and Latin-1).  The confidences and the sentiment are
  computed in exact rationals.  The scores of the sentences of a summary and the places they
  are compared with, where rounding decides which sentences are selected, are computed in
  the floating point arithmetic of JavaScript.
\<close>

text \<open>The white space and line terminators of \<open>\s\<close> and of \<open>trim\<close>: tab, line feed,
  vertical tab, form feed, carriage return, space and the no-break space.\<close>

definition is_space :: "char \<Rightarrow> bool" where
  "is_space c = (c \<in> set [CHR 0x09, CHR 0x0A, CHR 0x0B, CHR 0x0C, CHR 0x0D, CHR 0x20, CHR 0xA0])"

definition is_digit :: "char \<Rightarrow> bool" where
  "is_digit c = (CHR ''0'' \<le> c \<and> c \<le> CHR ''9'')"

definition is_upper :: "char \<Rightarrow> bool" where
  "is_upper c = (CHR ''A'' \<le> c \<and> c \<le> CHR ''Z'')"

definition is_lower :: "char \<Rightarrow> bool" where
  "is_lower c = (CHR ''a'' \<le> c \<and> c \<le> CHR ''z'')"

text \<open>\<open>\w\<close> is \<open>[A-Za-z0-9_]\<close>.\<close>

definition is_word :: "char \<Rightarrow> bool" where
  "is_word c = (is_upper c \<or> is_lower c \<or> is_digit c \<or> c = CHR ''_'')"

text \<open>The line terminators that \<open>.\<close> does not match.\<close>

definition is_line_terminator :: "char \<Rightarrow> bool" where
  "is_line_terminator c = (c = CHR 0x0A \<or> c = CHR 0x0D)"

text \<open>A capital letter and its small letter differ by 32, the bit 5 of the code unit.\<close>

fun with_bit5 :: "bool \<Rightarrow> char \<Rightarrow> char" where
  "with_bit5 b (Char b0 b1 b2 b3 b4 b5 b6 b7) = Char b0 b1 b2 b3 b4 b b6 b7"

text \<open>\<open>toLowerCase\<close> on one code unit: A to Z, and the Latin-1 capitals u+00c0 to u+00de
  without the multiplication sign u+00d7.\<close>

definition lower_char :: "char \<Rightarrow> char" where
  "lower_char c =
     (if is_upper c \<or> (CHR 0xC0 \<le> c \<and> c \<le> CHR 0xDE \<and> c \<noteq> CHR 0xD7)
      then with_bit5 True c else c)"

text \<open>The canonical form of a code unit under the \<open>i\<close> flag: its upper case when that is one
  code unit and does not map a non-ASCII unit into ASCII.  Micro sign, sharp s and y with
  diaeresis have no upper case among the 8-bit units and are the only units of their
  canonical class, so they stay as they are.\<close>

definition upper_char :: "char \<Rightarrow> char" where
  "upper_char c =
     (if is_lower c \<or> (CHR 0xE0 \<le> c \<and> c \<le> CHR 0xFE \<and> c \<noteq> CHR 0xF7)
      then with_bit5 False c else c)"

definition toLowerCase :: "string \<Rightarrow> string" where
  "toLowerCase s = map lower_char s"

definition trim :: "string \<Rightarrow> string" where
  "trim s = rev (dropWhile is_space (rev (dropWhile is_space s)))"

text \<open>\<open>s.substring(a, b)\<close> for \<open>a \<le> b\<close>; an end beyond the string stops at its length.\<close>

definition substring :: "string \<Rightarrow> nat \<Rightarrow> nat \<Rightarrow> string" where
  "substring s a b = take (b - a) (drop a s)"

text \<open>\<open>s.includes(k)\<close>.\<close>

fun includes_str :: "string \<Rightarrow> string \<Rightarrow> bool" where
  "includes_str [] k = (k = [])"
| "includes_str (x # xs) k = (prefix k (x # xs) \<or> includes_str xs k)"

text \<open>\<open>xs.join(sep)\<close>.\<close>

fun join :: "string \<Rightarrow> string list \<Rightarrow> string" where
  "join sep [] = []"
| "join sep [x] = x"
| "join sep (x # y # ys) = x @ sep @ join sep (y # ys)"

text \<open>\<open>s.split(' ')\<close>: the pieces between single spaces; the empty string gives one
  empty piece.\<close>

fun split_space :: "string \<Rightarrow> string list" where
  "split_space [] = [[]]"
| "split_space (c # cs) =
     (if c = CHR '' '' then [] # split_space cs
      else (case split_space cs of [] \<Rightarrow> [[c]] | w # ws \<Rightarrow> (c # w) # ws))"

section \<open>Regular expressions\<close>

text \<open>
  The regular expressions of the source are kept as syntax trees and run by a backtracking
  matcher with the priorities of the language: the alternatives of \<open>|\<close> from left to
  right, a greedy quantifier trying one more repetition first, a lazy one trying to stop
  first.
\<close>

datatype citem = Ch char | Rng char char | Digit | Space | Wordc

datatype rx =
    Eps
  | Cls "citem list"
  | NCls "citem list"
  | Dot
  | Cat rx rx
  | Alt rx rx
  | Rep nat "nat option" bool rx
  | Grp nat rx
  | Bol
  | Eol
  | Wb

type_synonym caps = "nat \<rightharpoonup> string"

fun citem_has :: "citem \<Rightarrow> char \<Rightarrow> bool" where
  "citem_has (Ch a) c = (c = a)"
| "citem_has (Rng lo hi) c = (lo \<le> c \<and> c \<le> hi)"
| "citem_has Digit c = is_digit c"
| "citem_has Space c = is_space c"
| "citem_has Wordc c = is_word c"

text \<open>A class has a character when one of its members has the same canonical form.\<close>

definition class_has :: "bool \<Rightarrow> citem list \<Rightarrow> char \<Rightarrow> bool" where
  "class_has ic its c =
     list_ex (\<lambda>it. citem_has it c \<or> (ic \<and> (citem_has it (upper_char c) \<or> citem_has it (lower_char c)))) its"

definition word_at :: "string \<Rightarrow> nat \<Rightarrow> bool" where
  "word_at s p = (p < length s \<and> is_word (s ! p))"

definition word_boundary :: "string \<Rightarrow> nat \<Rightarrow> bool" where
  "word_boundary s p = ((p > 0 \<and> word_at s (p - 1)) \<noteq> word_at s p)"

text \<open>
  \<open>rep f g n mn mx p c\<close> repeats the matcher \<open>f\<close> at least \<open>mn\<close> and at most \<open>mx\<close> times
  from position \<open>p\<close>.  Once the minimum is reached a repetition that consumes nothing is
  rejected, so \<open>n = mn + (length s - p)\<close> rounds are all that can happen.
\<close>

fun dec_max :: "nat option \<Rightarrow> nat option" where
  "dec_max None = None"
| "dec_max (Some k) = Some (k - 1)"

primrec rep :: "(nat \<Rightarrow> caps \<Rightarrow> (nat \<times> caps) list) \<Rightarrow> bool \<Rightarrow> nat \<Rightarrow> nat \<Rightarrow> nat option
    \<Rightarrow> nat \<Rightarrow> caps \<Rightarrow> (nat \<times> caps) list" where
  "rep f g 0 mn mx p c = (if mn = 0 then [(p, c)] else [])"
| "rep f g (Suc n) mn mx p c =
     (let more = (if mx = Some 0 then []
                  else concat (map (\<lambda>(q, c'). if mn = 0 \<and> q = p then []
                                                else rep f g n (mn - 1) (dec_max mx) q c') (f p c)));
          stop = (if mn = 0 then [(p, c)] else [])
      in if g then more @ stop else stop @ more)"

text \<open>\<open>ms ic r s p c\<close>: the ways \<open>r\<close> matches \<open>s\<close> from position \<open>p\<close> with captures \<open>c\<close>, as
  end positions and captures, in the order backtracking tries them.\<close>

fun ms :: "bool \<Rightarrow> rx \<Rightarrow> string \<Rightarrow> nat \<Rightarrow> caps \<Rightarrow> (nat \<times> caps) list" where
  "ms ic Eps s p c = [(p, c)]"
| "ms ic (Cls its) s p c = (if p < length s \<and> class_has ic its (s ! p) then [(p + 1, c)] else [])"
| "ms ic (NCls its) s p c = (if p < length s \<and> \<not> class_has ic its (s ! p) then [(p + 1, c)] else [])"
| "ms ic Dot s p c = (if p < length s \<and> \<not> is_line_terminator (s ! p) then [(p + 1, c)] else [])"
| "ms ic (Cat r1 r2) s p c = concat (map (\<lambda>(q, c'). ms ic r2 s q c') (ms ic r1 s p c))"
| "ms ic (Alt r1 r2) s p c = ms ic r1 s p c @ ms ic r2 s p c"
| "ms ic (Rep mn mx g r) s p c = rep (ms ic r s) g (mn + (length s - p)) mn mx p c"
| "ms ic (Grp n r) s p c = map (\<lambda>(q, c'). (q, c'(n \<mapsto> substring s p q))) (ms ic r s p c)"
| "ms ic Bol s p c = (if p = 0 then [(p, c)] else [])"
| "ms ic Eol s p c = (if p = length s then [(p, c)] else [])"
| "ms ic Wb s p c = (if word_boundary s p then [(p, c)] else [])"


lemma rep_bounds:
  assumes f: "\<And>p c q c'. p \<le> N \<Longrightarrow> (q, c') \<in> set (f p c) \<Longrightarrow> p \<le> q \<and> q \<le> N"
  shows "p \<le> N \<Longrightarrow> (q, c') \<in> set (rep f g n mn mx p c) \<Longrightarrow> p \<le> q \<and> q \<le> N"
proof (induction n arbitrary: mn mx p c)
  case 0
  then show ?case by (simp split: if_splits)
next
  case (Suc n)
  from Suc.prems(2) consider
      (stop) "q = p" "c' = c"
    | (more) r d where "(r, d) \<in> set (f p c)" "(q, c') \<in> set (rep f g n (mn - 1) (dec_max mx) r d)"
    by (auto simp: Let_def split: if_splits)
  then show ?case
  proof cases
    case stop
    with Suc.prems(1) show ?thesis by simp
  next
    case more
    from f [OF Suc.prems(1) more(1)] have r: "p \<le> r" "r \<le> N" by simp_all
    from Suc.IH [OF r(2) more(2)] r show ?thesis by simp
  qed
qed

lemma ms_bounds:
  "p \<le> length s \<Longrightarrow> (q, c') \<in> set (ms ic r s p c) \<Longrightarrow> p \<le> q \<and> q \<le> length s"
proof (induction r arbitrary: p c q c')
  case Eps
  then show ?case by simp
next
  case (Cls its)
  then show ?case by (simp split: if_splits)
next
  case (NCls its)
  then show ?case by (simp split: if_splits)
next
  case Dot
  then show ?case by (simp split: if_splits)
next
  case (Cat r1 r2)
  from Cat.prems(2) obtain m d where m: "(m, d) \<in> set (ms ic r1 s p c)"
    and q: "(q, c') \<in> set (ms ic r2 s m d)" by auto
  from Cat.IH(1) [OF Cat.prems(1) m] have "p \<le> m" "m \<le> length s" by simp_all
  with Cat.IH(2) [OF _ q] show ?case by simp
next
  case (Alt r1 r2)
  from Alt.prems(2) have "(q, c') \<in> set (ms ic r1 s p c) \<or> (q, c') \<in> set (ms ic r2 s p c)"
    by simp
  with Alt.IH Alt.prems(1) show ?case by blast
next
  case (Rep mn mx g r)
  from Rep.prems(2) have "(q, c') \<in> set (rep (ms ic r s) g (mn + (length s - p)) mn mx p c)"
    by simp
  from rep_bounds [of "length s" "ms ic r s", OF Rep.IH Rep.prems(1) this] show ?case by simp
next
  case (Grp n r)
  from Grp.prems(2) obtain d where "(q, d) \<in> set (ms ic r s p c)" by auto
  from Grp.IH [OF Grp.prems(1) this] show ?case .
next
  case Bol
  then show ?case by (simp split: if_splits)
next
  case Eol
  then show ?case by (simp split: if_splits)
next
  case Wb
  then show ?case by (simp split: if_splits)
qed

subsection \<open>\<open>exec\<close>, \<open>test\<close>, \<open>match\<close> and \<open>split\<close>\<close>

record rmatch =
  m_index :: nat
  m_end :: nat
  m_groups :: caps

record regexp =
  source :: rx
  ignoreCase :: bool
  global :: bool

definition match_at :: "bool \<Rightarrow> rx \<Rightarrow> string \<Rightarrow> nat \<Rightarrow> rmatch option" where
  "match_at ic r s i =
     (case ms ic r s i Map.empty of
        [] \<Rightarrow> None
      | (e, c) # _ \<Rightarrow> Some \<lparr>m_index = i, m_end = e, m_groups = c\<rparr>)"

fun first_match :: "(nat \<Rightarrow> rmatch option) \<Rightarrow> nat list \<Rightarrow> rmatch option" where
  "first_match f [] = None"
| "first_match f (i # is) = (case f i of Some m \<Rightarrow> Some m | None \<Rightarrow> first_match f is)"

text \<open>The leftmost match that starts at \<open>li\<close> or later.\<close>

definition search :: "bool \<Rightarrow> rx \<Rightarrow> string \<Rightarrow> nat \<Rightarrow> rmatch option" where
  "search ic r s li = first_match (match_at ic r s) [li..<Suc (length s)]"

text \<open>\<open>re.exec(s)\<close> with the \<open>lastIndex\<close> of \<open>re\<close> before and after the call.  Only a global
  expression reads and writes \<open>lastIndex\<close>.\<close>

definition exec :: "regexp \<Rightarrow> string \<Rightarrow> nat \<Rightarrow> rmatch option \<times> nat" where
  "exec re s lastIndex =
     (let li = (if global re then lastIndex else 0) in
      if li > length s then (None, if global re then 0 else lastIndex)
      else (case search (ignoreCase re) (source re) s li of
              None \<Rightarrow> (None, if global re then 0 else lastIndex)
            | Some m \<Rightarrow> (Some m, if global re then m_end m else lastIndex)))"

text \<open>\<open>re.test(s)\<close> is \<open>exec\<close> without the match.\<close>

definition test :: "regexp \<Rightarrow> string \<Rightarrow> nat \<Rightarrow> bool \<times> nat" where
  "test re s lastIndex = (case exec re s lastIndex of (m, li) \<Rightarrow> (m \<noteq> None, li))"

lemma exec_advance:
  assumes "exec re s li = (Some m, li')" and "li < li'"
  shows "li \<le> length s"
proof (cases "global re")
  case True
  show ?thesis
  proof (rule ccontr)
    assume "\<not> li \<le> length s"
    with True have "exec re s li = (None, 0)" by (simp add: exec_def)
    with assms(1) show False by simp
  qed
next
  case False
  then have "snd (exec re s li) = li"
    by (simp add: exec_def split: option.splits)
  with assms show ?thesis by simp
qed

datatype error = Error string

text \<open>
  The loop \<open>while ((match = re.exec(s)) !== null) { body }\<close> from a given \<open>lastIndex\<close>
  and state.  The body may throw (\<open>Inl\<close>).  When a call leaves \<open>lastIndex\<close> where it was
  (an empty match there, or an expression that is not global), every later call returns the
  same match and the loop never ends: the result is \<open>None\<close>.
\<close>

function while_exec :: "('a \<Rightarrow> rmatch \<Rightarrow> error + 'a) \<Rightarrow> regexp \<Rightarrow> string \<Rightarrow> nat \<Rightarrow> 'a
    \<Rightarrow> (error + 'a) option" where
  "while_exec body re s li st =
     (case exec re s li of
        (None, _) \<Rightarrow> Some (Inr st)
      | (Some m, li') \<Rightarrow>
          (case body st m of
             Inl e \<Rightarrow> Some (Inl e)
           | Inr st' \<Rightarrow> if li' \<le> li then None else while_exec body re s li' st'))"
  by pat_completeness auto
termination
proof (relation "measure (\<lambda>(body, re, s, li, st). Suc (length s) - li)")
  show "wf (measure (\<lambda>(body, re, s, li, st). Suc (length s) - li))" by simp
next
  fix body :: "'a \<Rightarrow> rmatch \<Rightarrow> error + 'a" and re :: regexp and s li st x1 x2 m st'
  assume "(x1, x2) = exec re s li" "x1 = Some m" "\<not> x2 \<le> li"
  then have "exec re s li = (Some m, x2)" "li < x2" by simp_all
  from exec_advance [OF this] \<open>li < x2\<close>
  show "((body, re, s, x2, st'), (body, re, s, li, st))
          \<in> measure (\<lambda>(body, re, s, li, st). Suc (length s) - li)"
    by simp
qed

declare while_exec.simps [simp del]

text \<open>\<open>for (const pattern of patterns) { while (...) { body } }\<close>; every expression is
  a fresh object, so its \<open>lastIndex\<close> starts at 0.\<close>

fun for_patterns :: "('a \<Rightarrow> rmatch \<Rightarrow> error + 'a) \<Rightarrow> regexp list \<Rightarrow> string \<Rightarrow> 'a
    \<Rightarrow> (error + 'a) option" where
  "for_patterns body [] s st = Some (Inr st)"
| "for_patterns body (re # res) s st =
     (case while_exec body re s 0 st of
        None \<Rightarrow> None
      | Some (Inl e) \<Rightarrow> Some (Inl e)
      | Some (Inr st') \<Rightarrow> for_patterns body res s st')"

subsection \<open>Writing expressions\<close>

fun cats :: "rx list \<Rightarrow> rx" where
  "cats [] = Eps"
| "cats [r] = r"
| "cats (r # rs) = Cat r (cats rs)"

fun alts :: "rx list \<Rightarrow> rx" where
  "alts [] = Cls []"
| "alts [r] = r"
| "alts (r # rs) = Alt r (alts rs)"

text \<open>A literal text, a character, \<open>r*\<close>, \<open>r+\<close>, \<open>r?\<close>, \<open>r*?\<close>, \<open>r{m,n}\<close>, \<open>\s\<close>, \<open>\d\<close>.\<close>

definition chr :: "char \<Rightarrow> rx" where
  "chr a = Cls [Ch a]"

definition lit :: "string \<Rightarrow> rx" where
  "lit w = cats (map chr w)"

definition rstar :: "rx \<Rightarrow> rx" where
  "rstar r = Rep 0 None True r"

definition rplus :: "rx \<Rightarrow> rx" where
  "rplus r = Rep 1 None True r"

definition ropt :: "rx \<Rightarrow> rx" where
  "ropt r = Rep 0 (Some 1) True r"

definition rstar_lazy :: "rx \<Rightarrow> rx" where
  "rstar_lazy r = Rep 0 None False r"

definition rrange :: "nat \<Rightarrow> nat \<Rightarrow> rx \<Rightarrow> rx" where
  "rrange m n r = Rep m (Some n) True r"

definition sp :: rx where
  "sp = Cls [Space]"

definition dg :: rx where
  "dg = Cls [Digit]"

text \<open>\<open>[A-Z]\<close> and \<open>[a-z]\<close>.\<close>

definition AZ :: rx where
  "AZ = Cls [Rng CHR ''A'' CHR ''Z'']"

definition az :: rx where
  "az = Cls [Rng CHR ''a'' CHR ''z'']"

text \<open>An expression with its flags, as in \<open>/.../gi\<close>.\<close>

definition regex :: "rx \<Rightarrow> string \<Rightarrow> regexp" where
  "regex r flags = \<lparr>source = r, ignoreCase = (CHR ''i'' \<in> set flags), global = (CHR ''g'' \<in> set flags)\<rparr>"

text \<open>An alternation of literal texts, \<open>(?:will|should|must)\<close>.\<close>

definition words :: "string list \<Rightarrow> rx" where
  "words ws = alts (map lit ws)"


subsection \<open>\<open>match\<close>, \<open>replace\<close> and \<open>split\<close> of a string\<close>

lemma match_at_SomeD:
  "match_at ic r s i = Some m \<Longrightarrow> (m_end m, m_groups m) \<in> set (ms ic r s i Map.empty)"
  by (auto simp: match_at_def split: list.splits)

lemma match_at_index:
  "match_at ic r s i = Some m \<Longrightarrow> m_index m = i"
  by (auto simp: match_at_def split: list.splits)

lemma first_match_upt:
  "first_match (match_at ic r s) [a..<b] = Some m \<Longrightarrow>
     a \<le> m_index m \<and> m_index m < b \<and> match_at ic r s (m_index m) = Some m"
proof (induction "b - a" arbitrary: a)
  case 0
  then show ?case by simp
next
  case (Suc k)
  then have ab: "a < b" by simp
  show ?case
  proof (cases "match_at ic r s a")
    case None
    with Suc.prems ab have "first_match (match_at ic r s) [Suc a..<b] = Some m"
      by (simp add: upt_conv_Cons)
    moreover from Suc.hyps(2) have "k = b - Suc a" by simp
    ultimately have "Suc a \<le> m_index m \<and> m_index m < b \<and> match_at ic r s (m_index m) = Some m"
      by (rule Suc.hyps(1) [rotated])
    then show ?thesis by simp
  next
    case (Some m')
    with Suc.prems ab have "m' = m" by (simp add: upt_conv_Cons)
    moreover from Some have "m_index m' = a"
      by (rule match_at_index)
    ultimately show ?thesis using Some ab by simp
  qed
qed

lemma search_bounds:
  assumes "search ic r s li = Some m"
  shows "li \<le> m_index m \<and> m_index m \<le> m_end m \<and> m_end m \<le> length s"
proof -
  from assms first_match_upt [of ic r s li "Suc (length s)" m]
  have i: "li \<le> m_index m" "m_index m \<le> length s" and at: "match_at ic r s (m_index m) = Some m"
    by (simp_all add: search_def)
  from at have "(m_end m, m_groups m) \<in> set (ms ic r s (m_index m) Map.empty)"
    by (rule match_at_SomeD)
  from ms_bounds [OF i(2) this] i(1) show ?thesis by simp
qed

text \<open>The matches of a global expression as \<open>s.match(re)\<close> and \<open>s.replace(re, t)\<close> find them:
  from the start, each search after the end of the match before, one further after an
  empty match.\<close>

function match_loop :: "bool \<Rightarrow> rx \<Rightarrow> string \<Rightarrow> nat \<Rightarrow> rmatch list" where
  "match_loop ic r s li =
     (if li > length s then []
      else (case search ic r s li of
              None \<Rightarrow> []
            | Some m \<Rightarrow> m # match_loop ic r s (if m_end m = m_index m then m_end m + 1 else m_end m)))"
  by pat_completeness auto
termination
proof (relation "measure (\<lambda>(ic, r, s, li). Suc (length s) - li)")
  show "wf (measure (\<lambda>(ic, r, s, li). Suc (length s) - li))" by simp
next
  fix ic r s li m
  assume li: "\<not> length s < li" and m: "search ic r s li = Some m"
  from search_bounds [OF m] li
  show "((ic, r, s, if m_end m = m_index m then m_end m + 1 else m_end m), (ic, r, s, li))
          \<in> measure (\<lambda>(ic, r, s, li). Suc (length s) - li)"
    by auto
qed

declare match_loop.simps [simp del]

text \<open>\<open>(s.match(re) || []).length\<close> for a global \<open>re\<close>.\<close>

definition match_count :: "regexp \<Rightarrow> string \<Rightarrow> nat" where
  "match_count re s = length (match_loop (ignoreCase re) (source re) s 0)"

fun replace_at :: "string \<Rightarrow> string \<Rightarrow> nat \<Rightarrow> rmatch list \<Rightarrow> string" where
  "replace_at s t pos [] = drop pos s"
| "replace_at s t pos (m # rest) = substring s pos (m_index m) @ t @ replace_at s t (m_end m) rest"

text \<open>\<open>s.replace(re, t)\<close> for a global \<open>re\<close> and a text \<open>t\<close> without \<open>$\<close>.\<close>

definition replace_all :: "regexp \<Rightarrow> string \<Rightarrow> string \<Rightarrow> string" where
  "replace_all re s t = replace_at s t 0 (match_loop (ignoreCase re) (source re) s 0)"

text \<open>\<open>s.split(re)\<close> for an expression without groups: \<open>p\<close> is the start of the piece
  being read, \<open>q\<close> the position where a separator is tried.\<close>

function split_loop :: "bool \<Rightarrow> rx \<Rightarrow> string \<Rightarrow> nat \<Rightarrow> nat \<Rightarrow> string list" where
  "split_loop ic r s p q =
     (if q < length s then
        (case ms ic r s q Map.empty of
           [] \<Rightarrow> split_loop ic r s p (q + 1)
         | (e, c) # _ \<Rightarrow>
             if e = p then split_loop ic r s p (q + 1)
             else substring s p q # split_loop ic r s e e)
      else [substring s p (length s)])"
  by pat_completeness auto
termination
proof (relation "measure (\<lambda>(ic, r, s, p, q). 2 * (length s - q) + (if p \<noteq> q then 1 else 0))")
  show "wf (measure (\<lambda>(ic, r, s, p, q). 2 * (length s - q) + (if p \<noteq> q then 1 else 0)))"
    by simp
next
  fix ic r s p q
  assume "q < length s"
  then show "((ic, r, s, p, q + 1), (ic, r, s, p, q))
      \<in> measure (\<lambda>(ic, r, s, p, q). 2 * (length s - q) + (if p \<noteq> q then 1 else 0))"
    by auto
next
  fix ic r s p q x21 x22 e c
  assume "q < length s"
  then show "((ic, r, s, p, q + 1), (ic, r, s, p, q))
      \<in> measure (\<lambda>(ic, r, s, p, q). 2 * (length s - q) + (if p \<noteq> q then 1 else 0))"
    by auto
next
  fix ic r s p q x21 x22 e c
  assume q: "q < length s" and m: "ms ic r s q Map.empty = x21 # x22" and x: "(e, c) = x21"
    and e: "e \<noteq> p"
  from m x have "(e, c) \<in> set (ms ic r s q Map.empty)" by simp
  from ms_bounds [OF _ this] q have "q \<le> e" by simp
  with q e show "((ic, r, s, e, e), (ic, r, s, p, q))
      \<in> measure (\<lambda>(ic, r, s, p, q). 2 * (length s - q) + (if p \<noteq> q then 1 else 0))"
    by auto
qed

declare split_loop.simps [simp del]

definition split :: "regexp \<Rightarrow> string \<Rightarrow> string list" where
  "split re s =
     (if s = [] then (if ms (ignoreCase re) (source re) s 0 Map.empty = [] then [s] else [])
      else split_loop (ignoreCase re) (source re) s 0 0)"


section \<open>JavaScript numbers\<close>

text \<open>
  A JavaScript number is an IEEE 754 double.  \<open>Double m e\<close> is the number \<open>m * 2 ^ e\<close>.  An
  operation returns the double nearest to its exact result, with a mantissa of 53 bits (fewer
  below \<open>2 ^ - 1022\<close>, where the exponent stays at \<open>- 1074\<close>), and the one with the even
  mantissa when two are equally near.  The numbers of the summaries, a count of sentences
  times 0.3 or 0.7 and sums of a few tenths, are far from the largest double, and results
  beyond it are left out.
\<close>

datatype double = Double int int

text \<open>The number of bits of a positive integer.\<close>

function bit_length :: "int \<Rightarrow> int" where
  "bit_length a = (if a \<le> 0 then 0 else 1 + bit_length (a div 2))"
  by pat_completeness auto
termination by (relation "measure nat") auto

declare bit_length.simps [simp del]

text \<open>\<open>scale2 a k\<close> is \<open>a * 2 ^ k\<close> for \<open>k\<close> above 0, and \<open>a\<close> otherwise.\<close>

definition scale2 :: "int \<Rightarrow> int \<Rightarrow> int" where
  "scale2 a k = (if 0 \<le> k then a * 2 ^ nat k else a)"

text \<open>The integer nearest to \<open>a / b\<close>, the even one of two.\<close>

definition round_half_even :: "int \<Rightarrow> int \<Rightarrow> int" where
  "round_half_even a b =
     (let q = a div b; r = a mod b
      in if 2 * r < b \<or> (2 * r = b \<and> even q) then q else q + 1)"

text \<open>The double nearest to \<open>(a / b) * 2 ^ e\<close>, for a positive \<open>b\<close>: with \<open>k\<close> the mantissa
  \<open>\<bar>a\<bar> * 2 ^ k / b\<close> has 53 bits before it is rounded.\<close>

definition round_double :: "int \<Rightarrow> int \<Rightarrow> int \<Rightarrow> double" where
  "round_double a b e =
     (if a = 0 then Double 0 0
      else
        (let k0 = 53 - (bit_length \<bar>a\<bar> - bit_length b);
             k1 = (if scale2 b (53 - k0) \<le> scale2 \<bar>a\<bar> (k0 - 53) then k0 - 1 else k0);
             k = min k1 (e + 1074);
             m = round_half_even (scale2 \<bar>a\<bar> k) (scale2 b (- k))
         in Double (sgn a * m) (e - k)))"

text \<open>A literal \<open>a / b\<close> such as 0.3, and an integer such as an index or a length.\<close>

definition dlit :: "int \<Rightarrow> int \<Rightarrow> double" where
  "dlit a b = round_double a b 0"

definition dnat :: "nat \<Rightarrow> double" where
  "dnat n = round_double (int n) 1 0"

fun dadd :: "double \<Rightarrow> double \<Rightarrow> double" where
  "dadd (Double m1 e1) (Double m2 e2) =
     (let e = min e1 e2 in round_double (scale2 m1 (e1 - e) + scale2 m2 (e2 - e)) 1 e)"

fun dneg :: "double \<Rightarrow> double" where
  "dneg (Double m e) = Double (- m) e"

definition dsub :: "double \<Rightarrow> double \<Rightarrow> double" where
  "dsub x y = dadd x (dneg y)"

fun dmul :: "double \<Rightarrow> double \<Rightarrow> double" where
  "dmul (Double m1 e1) (Double m2 e2) = round_double (m1 * m2) 1 (e1 + e2)"

fun dless :: "double \<Rightarrow> double \<Rightarrow> bool" where
  "dless (Double m1 e1) (Double m2 e2) =
     (let e = min e1 e2 in scale2 m1 (e1 - e) < scale2 m2 (e2 - e))"

text \<open>The value of a double, and \<open>Math.ceil\<close>.\<close>

fun dvalue :: "double \<Rightarrow> rat" where
  "dvalue (Double m e) =
     (if 0 \<le> e then of_int (m * 2 ^ nat e) else of_int m / of_int (2 ^ nat (- e)))"

fun dceil :: "double \<Rightarrow> int" where
  "dceil (Double m e) = (if 0 \<le> e then m * 2 ^ nat e else - ((- m) div 2 ^ nat (- e)))"

section \<open>The meeting processor\<close>

subsection \<open>Values, configuration and records\<close>

datatype js_value = JSUndefined | JSNull | JSBoolean bool | JSNumber rat | JSString string | JSObject

text \<open>\<open>!v\<close> is \<open>\<not> truthy v\<close>; \<open>typeof v === 'string'\<close> is \<open>is_string v\<close>.\<close>

fun truthy :: "js_value \<Rightarrow> bool" where
  "truthy JSUndefined = False"
| "truthy JSNull = False"
| "truthy (JSBoolean b) = b"
| "truthy (JSNumber n) = (n \<noteq> 0)"
| "truthy (JSString s) = (s \<noteq> [])"
| "truthy JSObject = True"

fun is_string :: "js_value \<Rightarrow> bool" where
  "is_string (JSString s) = True"
| "is_string v = False"

record tier_config =
  useAI :: bool
  maxTranscriptLength :: nat
  summaryLength :: nat

definition config_basic :: tier_config where
  "config_basic = \<lparr>useAI = False, maxTranscriptLength = 50000, summaryLength = 500\<rparr>"

definition config_ai :: tier_config where
  "config_ai = \<lparr>useAI = True, maxTranscriptLength = 100000, summaryLength = 1000\<rparr>"

text \<open>
  The tier argument: left out (or \<open>undefined\<close>), \<open>null\<close>, or a string.  \<open>this.config\<close> is an
  object literal, so \<open>this.config[tier]\<close> finds the two tiers and, for the names of the
  properties every object inherits, the inherited function or object, which is truthy and
  has neither \<open>maxTranscriptLength\<close> nor \<open>summaryLength\<close>.
\<close>

datatype tier_arg = TierUndefined | TierNull | TierString string

datatype config_value = Own tier_config | Inherited

definition object_prototype_keys :: "string list" where
  "object_prototype_keys =
     [''constructor'', ''__defineGetter__'', ''__defineSetter__'', ''hasOwnProperty'',
      ''__lookupGetter__'', ''__lookupSetter__'', ''isPrototypeOf'', ''propertyIsEnumerable'',
      ''toString'', ''valueOf'', ''__proto__'', ''toLocaleString'']"

fun property_key :: "tier_arg \<Rightarrow> string" where
  "property_key TierUndefined = ''undefined''"
| "property_key TierNull = ''null''"
| "property_key (TierString k) = k"

definition config_get :: "string \<Rightarrow> config_value option" where
  "config_get k =
     (if k = ''basic'' then Some (Own config_basic)
      else if k = ''ai'' then Some (Own config_ai)
      else if k \<in> set object_prototype_keys then Some Inherited
      else None)"

fun config_maxTranscriptLength :: "config_value \<Rightarrow> nat option" where
  "config_maxTranscriptLength (Own c) = Some (maxTranscriptLength c)"
| "config_maxTranscriptLength Inherited = None"

fun config_summaryLength :: "config_value \<Rightarrow> nat option" where
  "config_summaryLength (Own c) = Some (summaryLength c)"
| "config_summaryLength Inherited = None"

text \<open>\<open>n > maxLength\<close> where \<open>maxLength\<close> may be \<open>undefined\<close>: a comparison with
  \<open>undefined\<close> is false.\<close>

fun exceeds :: "nat \<Rightarrow> nat option \<Rightarrow> bool" where
  "exceeds n None = False"
| "exceeds n (Some m) = (n > m)"

record mention =
  ticketId :: string
  mentionContext :: string
  position :: nat
  confidence :: rat

record action_item =
  action :: string
  responsible :: "string option"
  actionConfidence :: rat
  actionContext :: string

record decision_item =
  decision :: string
  decisionConfidence :: rat
  decisionContext :: string

record meeting =
  transcript :: string
  ticketMentions :: "mention list"
  summary :: string
  actionItems :: "action_item list"
  keyDecisions :: "decision_item list"
  participants :: "string list"
  processingTier :: tier_arg
  processedAt :: string
  wordCount :: nat

subsection \<open>\<open>cleanTranscript\<close>\<close>

text \<open>The text of a value that is a string.\<close>

fun string_of :: "js_value \<Rightarrow> string" where
  "string_of (JSString s) = s"
| "string_of v = []"

definition cleanTranscript :: "js_value \<Rightarrow> nat option \<Rightarrow> error + string" where
  "cleanTranscript v maxLength =
     (if \<not> truthy v \<or> \<not> is_string v
      then Inl (Error ''Invalid transcript provided'')
      else
        (let cleaned = trim (replace_all (regex (rplus sp) ''g'') (string_of v) '' '') in
         case maxLength of
           None \<Rightarrow> Inr cleaned
         | Some m \<Rightarrow>
             if length cleaned > m then Inr (substring cleaned 0 m @ ''...'')
             else Inr cleaned))"

subsection \<open>Ticket mentions\<close>

definition ticket_key :: rx where
  "ticket_key = cats [rrange 2 10 AZ, chr CHR ''-'', rplus dg]"

definition ticket_patterns :: "regexp list" where
  "ticket_patterns =
     [regex (cats [Wb, Grp 1 ticket_key, Wb]) ''g'',
      regex (cats [Wb, lit ''ticket'', rplus sp, Grp 1 ticket_key]) ''gi'',
      regex (cats [Wb, lit ''issue'', rplus sp, Grp 1 ticket_key]) ''gi'',
      regex (cats [Wb, Grp 1 (rrange 2 10 AZ), rplus sp, Grp 2 (rplus dg), Wb]) ''g'']"

definition extractMentionContext :: "string \<Rightarrow> nat \<Rightarrow> string \<Rightarrow> string" where
  "extractMentionContext t pos tid =
     (let contextRadius = 150;
          start = pos - contextRadius;
          end = min (length t) (pos + length tid + contextRadius)
      in trim (substring t start end))"

definition mention_indicators :: "regexp list" where
  "mention_indicators =
     [regex (cats [Wb, Grp 1 (words [''fix'', ''close'', ''resolve'', ''complete'', ''implement'',
                                      ''work on'', ''update'', ''review'']), Wb]) ''i'',
      regex (cats [Wb, Grp 1 (words [''bug'', ''issue'', ''task'', ''story'', ''epic'']), Wb]) ''i'',
      regex (cats [Wb, Grp 1 (words [''jira'', ''ticket'', ''card'']), Wb]) ''i'',
      regex (cats [Wb, Grp 1 (words [''assigned'', ''responsible'', ''owner'']), Wb]) ''i'']"

text \<open>\<open>for (const indicator of indicators) if (indicator.test(text)) confidence += step\<close>;
  the indicators are not global, so every test starts at the beginning.\<close>

definition add_indicators :: "regexp list \<Rightarrow> rat \<Rightarrow> string \<Rightarrow> rat \<Rightarrow> rat" where
  "add_indicators indicators step text base =
     fold (\<lambda>indicator conf. if fst (test indicator text 0) then conf + step else conf)
       indicators base"

definition calculateMentionConfidence :: "string \<Rightarrow> string \<Rightarrow> rat" where
  "calculateMentionConfidence ctx tid =
     min (add_indicators mention_indicators (1 / 10) ctx (1 / 2)) 1"

text \<open>A captured group is truthy when it took part in the match and is not empty.\<close>

fun group_truthy :: "string option \<Rightarrow> bool" where
  "group_truthy None = False"
| "group_truthy (Some g) = (g \<noteq> [])"

text \<open>The body of the loop: the set \<open>mentions\<close> (in insertion order) and the list
  \<open>mentionDetails\<close>.\<close>

definition mention_body :: "string \<Rightarrow> string list \<times> mention list \<Rightarrow> rmatch
    \<Rightarrow> error + string list \<times> mention list" where
  "mention_body t st m =
     (let mentions = fst st; mentionDetails = snd st;
          tid_opt =
            (case (m_groups m 1, m_groups m 2) of
               (Some g1, Some g2) \<Rightarrow>
                 if g1 \<noteq> [] \<and> g2 \<noteq> [] then Some (g1 @ ''-'' @ g2) else Some g1
             | (g1, _) \<Rightarrow> g1)
      in case tid_opt of
           None \<Rightarrow> Inr st
         | Some tid \<Rightarrow>
             if tid \<noteq> [] \<and> tid \<notin> set mentions then
               (let ctx = extractMentionContext t (m_index m) tid in
                Inr (mentions @ [tid],
                     mentionDetails @
                       [\<lparr>ticketId = tid, mentionContext = ctx, position = m_index m,
                         confidence = calculateMentionConfidence ctx tid\<rparr>]))
             else Inr st)"

text \<open>An extractor returns the empty list when its body throws.\<close>

definition extractTicketMentions :: "string \<Rightarrow> mention list option" where
  "extractTicketMentions t =
     (case for_patterns (mention_body t) ticket_patterns t ([], []) of
        None \<Rightarrow> None
      | Some (Inl e) \<Rightarrow> Some []
      | Some (Inr st) \<Rightarrow> Some (snd st))"

subsection \<open>The summary\<close>

record scored =
  sentence :: string
  score :: double
  index :: nat

definition summary_keywords :: "string list" where
  "summary_keywords =
     [''decided'', ''agreed'', ''will'', ''should'', ''must'', ''important'', ''action'', ''next'',
      ''follow'', ''issue'', ''problem'', ''solution'']"

text \<open>The score of the sentence \<open>x\<close> at place \<open>i\<close> among \<open>n\<close> sentences.\<close>

definition score_sentence :: "nat \<Rightarrow> nat \<Rightarrow> string \<Rightarrow> scored" where
  "score_sentence n i x =
     (let s0 = dnat 0;
          s1 = (if dless (dnat i) (dmul (dnat n) (dlit 3 10)) then dadd s0 (dlit 3 10) else s0);
          s2 = (if dless (dmul (dnat n) (dlit 7 10)) (dnat i) then dadd s1 (dlit 2 10) else s1);
          s3 = fold (\<lambda>keyword sc. if includes_str (toLowerCase x) keyword then dadd sc (dlit 1 10)
                                    else sc)
                 summary_keywords s2;
          s4 = (if length x < 20 \<or> length x > 200 then dsub s3 (dlit 1 10) else s3)
      in \<lparr>sentence = trim x, score = s4, index = i\<rparr>)"

text \<open>\<open>xs.sort((a, b) => b.score - a.score)\<close> and \<open>xs.sort((a, b) => a.index - b.index)\<close>;
  the sort of an array is stable, and the difference of two doubles has the sign of the
  difference of their values.\<close>

definition sort_by_score :: "scored list \<Rightarrow> scored list" where
  "sort_by_score xs = sort_key (\<lambda>x. - dvalue (score x)) xs"

definition sort_by_index :: "scored list \<Rightarrow> scored list" where
  "sort_by_index xs = sort_key index xs"

definition sentence_separator :: regexp where
  "sentence_separator = regex (rplus (Cls [Ch CHR ''.'', Ch CHR ''!'', Ch CHR ''?''])) []"

definition qualifying_sentences :: "string \<Rightarrow> string list" where
  "qualifying_sentences t = filter (\<lambda>x. length (trim x) > 10) (split sentence_separator t)"

definition topSentences :: "string list \<Rightarrow> scored list" where
  "topSentences sentences =
     (let n = length sentences;
          scoredSentences = map (\<lambda>(i, x). score_sentence n i x) (enumerate 0 sentences)
      in sort_by_index
           (take (min 5 (nat (dceil (dmul (dnat n) (dlit 3 10))))) (sort_by_score scoredSentences)))"

text \<open>\<open>maxLength\<close> is \<open>None\<close> when the configuration has no \<open>summaryLength\<close>; the end
  \<open>maxLength - 3\<close> of \<open>substring\<close> is 0 when it is negative.\<close>

definition generateBasicSummary :: "string \<Rightarrow> nat option \<Rightarrow> string" where
  "generateBasicSummary t maxLength =
     (if t = [] \<or> length t < 50 then ''Meeting transcript too short to summarize.''
      else
        (let sentences = qualifying_sentences t in
         if length sentences \<le> 3 then trim (join ''. '' sentences) @ ''.''
         else
           (let joined = join ''. '' (map sentence (topSentences sentences));
                cut = (case maxLength of
                         None \<Rightarrow> joined
                       | Some m \<Rightarrow>
                           if length joined > m then substring joined 0 (m - 3) @ ''...''
                           else joined)
            in if cut = [] then ''Unable to generate meaningful summary.'' else cut)))"

text \<open>The placeholder for the AI summary falls back to the basic one.\<close>

definition generateAISummary :: "string \<Rightarrow> nat option \<Rightarrow> string" where
  "generateAISummary t maxLength = generateBasicSummary t maxLength"

subsection \<open>Action items and decisions\<close>

text \<open>The expression \<open>/(?:^|\.|;)\s*([^.;]*(?:w1|w2|...).*?)(?:\.|;|$)/gi\<close> for the
  vocabulary \<open>ws\<close>.\<close>

definition span_with :: "string list \<Rightarrow> regexp" where
  "span_with ws =
     regex (cats [alts [Bol, chr CHR ''.'', chr CHR '';''],
                  rstar sp,
                  Grp 1 (cats [rstar (NCls [Ch CHR ''.'', Ch CHR '';'']), words ws, rstar_lazy Dot]),
                  alts [chr CHR ''.'', chr CHR '';'', Eol]]) ''gi''"

definition actionPatterns :: "regexp list" where
  "actionPatterns =
     [span_with [''will'', ''should'', ''must'', ''need to'', ''have to'', ''going to'', ''action'',
                 ''todo'', ''task''],
      span_with [''follow up'', ''follow-up'', ''next step'', ''action item''],
      span_with [''assign'', ''responsible'', ''owner'', ''due'']]"

definition decisionPatterns :: "regexp list" where
  "decisionPatterns =
     [span_with [''decided'', ''agreed'', ''concluded'', ''determined'', ''resolved''],
      span_with [''decision'', ''choice'', ''option'', ''approach'', ''solution''],
      span_with [''we will'', ''team will'', ''going with'', ''chosen'', ''selected'']]"

definition action_indicators :: "regexp list" where
  "action_indicators =
     [regex (cats [Wb, Grp 1 (words [''will'', ''must'', ''should'', ''need to'', ''have to'']), Wb]) ''i'',
      regex (cats [Wb, Grp 1 (words [''by'', ''due'', ''deadline'', ''before'']), Wb]) ''i'',
      regex (cats [Wb, Grp 1 (words [''assign'', ''responsible'', ''owner'']), Wb]) ''i'',
      regex (cats [Wb, Grp 1 (words [''action'', ''task'', ''todo'', ''follow up'']), Wb]) ''i'']"

definition calculateActionConfidence :: "string \<Rightarrow> rat" where
  "calculateActionConfidence a = min (add_indicators action_indicators (15 / 100) a (3 / 10)) 1"

definition decision_indicators :: "regexp list" where
  "decision_indicators =
     [regex (cats [Wb, Grp 1 (words [''decided'', ''agreed'', ''concluded'', ''determined'']), Wb]) ''i'',
      regex (cats [Wb, Grp 1 (words [''final'', ''final decision'', ''consensus'']), Wb]) ''i'',
      regex (cats [Wb, Grp 1 (words [''approved'', ''accepted'', ''chosen'', ''selected'']), Wb]) ''i'',
      regex (cats [Wb, Grp 1 (words [''going with'', ''moving forward'']), Wb]) ''i'']"

definition calculateDecisionConfidence :: "string \<Rightarrow> rat" where
  "calculateDecisionConfidence d = min (add_indicators decision_indicators (1 / 10) d (4 / 10)) 1"

definition extractActionContext :: "string \<Rightarrow> nat \<Rightarrow> string" where
  "extractActionContext t pos =
     (let contextRadius = 100;
          start = pos - contextRadius;
          end = min (length t) (pos + contextRadius)
      in trim (substring t start end))"

definition extractDecisionContext :: "string \<Rightarrow> nat \<Rightarrow> string" where
  "extractDecisionContext t pos =
     (let contextRadius = 100;
          start = pos - contextRadius;
          end = min (length t) (pos + contextRadius)
      in trim (substring t start end))"

definition capital_word :: rx where
  "capital_word = Cat AZ (rplus az)"

definition responsible_patterns :: "regexp list" where
  "responsible_patterns =
     [regex (cats [Wb, Grp 1 capital_word, rplus sp,
                   alts [lit ''will'', lit ''should'', lit ''must'',
                         cats [lit ''need'', ropt (chr CHR ''s''), lit '' to'']]]) ''i'',
      regex (cats [words [''assign'', ''assigned to'', ''responsible'', ''owner''], rplus sp,
                   Grp 1 capital_word]) ''i'',
      regex (cats [Wb, Grp 1 capital_word, rplus sp, words [''is'', ''was''], rplus sp,
                   words [''responsible'', ''assigned'']]) ''i'']"

text \<open>The first pattern whose match has a truthy first group gives the person.\<close>

fun first_person :: "regexp list \<Rightarrow> string \<Rightarrow> string option" where
  "first_person [] a = None"
| "first_person (re # res) a =
     (case fst (exec re a 0) of
        None \<Rightarrow> first_person res a
      | Some m \<Rightarrow> if group_truthy (m_groups m 1) then m_groups m 1 else first_person res a)"

definition extractResponsiblePerson :: "string \<Rightarrow> string option" where
  "extractResponsiblePerson a = first_person responsible_patterns a"

text \<open>
  The fuzzy search of Fuse.js is a library outside the repository and a parameter here:
  \<open>fuse keys q\<close> searches the texts \<open>keys\<close> of the collection for \<open>q\<close> and returns the
  places (\<open>refIndex\<close>) of the items found, best first.
\<close>

type_synonym fuse = "string list \<Rightarrow> string \<Rightarrow> nat list"

definition fuse_search :: "fuse \<Rightarrow> ('a \<Rightarrow> string) \<Rightarrow> 'a list \<Rightarrow> string \<Rightarrow> 'a list" where
  "fuse_search f key items q = map (\<lambda>i. items ! i) (filter (\<lambda>i. i < length items) (f (map key items) q))"

text \<open>One round of the loop over the items: the state is the list \<open>unique\<close> and the set
  \<open>processed\<close>.\<close>

definition dedupe_step :: "fuse \<Rightarrow> ('a \<Rightarrow> string) \<Rightarrow> ('a \<Rightarrow> rat) \<Rightarrow> 'a list \<Rightarrow> 'a
    \<Rightarrow> 'a list \<times> string list \<Rightarrow> 'a list \<times> string list" where
  "dedupe_step f key conf items item st =
     (let unique = fst st; processed = snd st in
      if key item \<in> set processed then st
      else
        (let similar = fuse_search f key items (key item);
             best = fold (\<lambda>r bestItem. if conf r > conf bestItem then r else bestItem) similar item
         in (unique @ [best], processed @ map key similar)))"

definition dedupe :: "fuse \<Rightarrow> ('a \<Rightarrow> string) \<Rightarrow> ('a \<Rightarrow> rat) \<Rightarrow> 'a list \<Rightarrow> 'a list" where
  "dedupe f key conf items =
     (if length items \<le> 1 then items
      else sort_key (\<lambda>x. - conf x) (fst (fold (dedupe_step f key conf items) items ([], []))))"

definition removeDuplicateActions :: "fuse \<Rightarrow> action_item list \<Rightarrow> action_item list" where
  "removeDuplicateActions f items = dedupe f action actionConfidence items"

definition removeDuplicateDecisions :: "fuse \<Rightarrow> decision_item list \<Rightarrow> decision_item list" where
  "removeDuplicateDecisions f items = dedupe f decision decisionConfidence items"

text \<open>\<open>match[1].trim()\<close> throws when the first group did not take part in the match.\<close>

definition action_body :: "string \<Rightarrow> action_item list \<Rightarrow> rmatch \<Rightarrow> error + action_item list" where
  "action_body t actions m =
     (case m_groups m 1 of
        None \<Rightarrow> Inl (Error ''Cannot read properties of undefined'')
      | Some g \<Rightarrow>
          (let a = trim g in
           if length a > 10 \<and> length a < 300 then
             Inr (actions @
               [\<lparr>action = a, responsible = extractResponsiblePerson a,
                 actionConfidence = calculateActionConfidence a,
                 actionContext = extractActionContext t (m_index m)\<rparr>])
           else Inr actions))"

definition extractActionItems :: "fuse \<Rightarrow> string \<Rightarrow> action_item list option" where
  "extractActionItems f t =
     (case for_patterns (action_body t) actionPatterns t [] of
        None \<Rightarrow> None
      | Some (Inl e) \<Rightarrow> Some []
      | Some (Inr actions) \<Rightarrow>
          Some (take 10 (filter (\<lambda>a. actionConfidence a > 3 / 10) (removeDuplicateActions f actions))))"

definition decision_body :: "string \<Rightarrow> decision_item list \<Rightarrow> rmatch \<Rightarrow> error + decision_item list" where
  "decision_body t decisions m =
     (case m_groups m 1 of
        None \<Rightarrow> Inl (Error ''Cannot read properties of undefined'')
      | Some g \<Rightarrow>
          (let d = trim g in
           if length d > 10 \<and> length d < 300 then
             Inr (decisions @
               [\<lparr>decision = d, decisionConfidence = calculateDecisionConfidence d,
                 decisionContext = extractDecisionContext t (m_index m)\<rparr>])
           else Inr decisions))"

definition extractKeyDecisions :: "fuse \<Rightarrow> string \<Rightarrow> decision_item list option" where
  "extractKeyDecisions f t =
     (case for_patterns (decision_body t) decisionPatterns t [] of
        None \<Rightarrow> None
      | Some (Inl e) \<Rightarrow> Some []
      | Some (Inr decisions) \<Rightarrow>
          Some (take 8 (filter (\<lambda>d. decisionConfidence d > 4 / 10) (removeDuplicateDecisions f decisions))))"

subsection \<open>Participants\<close>

definition namePatterns :: "regexp list" where
  "namePatterns =
     [regex (cats [Wb, Grp 1 capital_word, rplus sp,
                   words [''said'', ''mentioned'', ''asked'', ''suggested'', ''noted'', ''stated'']]) ''gi'',
      regex (cats [Wb, Grp 1 capital_word, chr CHR '':'', sp]) ''g'',
      regex (cats [words [''thanks'', ''thank you''], rplus sp, Grp 1 capital_word]) ''gi'']"

text \<open>The set \<open>participants\<close> keeps the order of insertion.\<close>

definition participant_body :: "string list \<Rightarrow> rmatch \<Rightarrow> error + string list" where
  "participant_body names m =
     (case m_groups m 1 of
        None \<Rightarrow> Inl (Error ''Cannot read properties of undefined'')
      | Some name \<Rightarrow>
          if length name > 2 \<and> length name < 20 then
            Inr (if name \<in> set names then names else names @ [name])
          else Inr names)"

definition identifyParticipants :: "string \<Rightarrow> string list option" where
  "identifyParticipants t =
     (case for_patterns participant_body namePatterns t [] of
        None \<Rightarrow> None
      | Some (Inl e) \<Rightarrow> Some []
      | Some (Inr names) \<Rightarrow> Some (take 10 names))"

subsection \<open>\<open>processMeeting\<close>\<close>

text \<open>
  \<open>processMeeting f now v tier\<close>: \<open>f\<close> is the fuzzy search, \<open>now\<close> the text of the clock at
  the call, \<open>v\<close> the transcript argument.  The result is \<open>None\<close> when the call does not
  return, \<open>Some (Inl e)\<close> when it throws \<open>e\<close>, \<open>Some (Inr r)\<close> when it returns \<open>r\<close>.
\<close>

text \<open>The default of the parameter, \<open>tier = 'basic'\<close>, and
  \<open>this.config[tier] || this.config.basic\<close>.\<close>

definition default_tier :: "tier_arg \<Rightarrow> tier_arg" where
  "default_tier tier_arg = (case tier_arg of TierUndefined \<Rightarrow> TierString ''basic'' | _ \<Rightarrow> tier_arg)"

definition config_for :: "tier_arg \<Rightarrow> config_value" where
  "config_for tier = (case config_get (property_key tier) of Some c \<Rightarrow> c | None \<Rightarrow> Own config_basic)"

definition processMeeting :: "fuse \<Rightarrow> string \<Rightarrow> js_value \<Rightarrow> tier_arg \<Rightarrow> (error + meeting) option" where
  "processMeeting f now v tier_arg =
     (let tier = default_tier tier_arg;
          config = config_for tier
      in case cleanTranscript v (config_maxTranscriptLength config) of
           Inl (Error msg) \<Rightarrow> Some (Inl (Error (''Meeting processing failed: '' @ msg)))
         | Inr clean \<Rightarrow>
             (case extractTicketMentions clean of
                None \<Rightarrow> None
              | Some mentions \<Rightarrow>
                  (let sm = (if tier = TierString ''ai''
                             then generateAISummary clean (config_summaryLength config)
                             else generateBasicSummary clean (config_summaryLength config))
                   in case extractActionItems f clean of
                        None \<Rightarrow> None
                      | Some actions \<Rightarrow>
                          (case extractKeyDecisions f clean of
                             None \<Rightarrow> None
                           | Some decisions \<Rightarrow>
                               (case identifyParticipants clean of
                                  None \<Rightarrow> None
                                | Some names \<Rightarrow>
                                    Some (Inr \<lparr>transcript = clean,
                                               ticketMentions = mentions,
                                               summary = sm,
                                               actionItems = actions,
                                               keyDecisions = decisions,
                                               participants = names,
                                               processingTier = tier,
                                               processedAt = now,
                                               wordCount = length (split_space clean)\<rparr>))))))"

section \<open>The text processor\<close>

definition positiveWords :: "string list" where
  "positiveWords =
     [''good'', ''great'', ''excellent'', ''positive'', ''success'', ''complete'', ''done'', ''resolved'']"

definition negativeWords :: "string list" where
  "negativeWords =
     [''bad'', ''problem'', ''issue'', ''fail'', ''block'', ''stuck'', ''difficult'', ''concern'']"

text \<open>\<open>(lowerText.match(new RegExp(word, 'g')) || []).length\<close>; the words are letters only,
  so the expression is the literal text.\<close>

definition count_matches :: "string \<Rightarrow> string \<Rightarrow> int" where
  "count_matches word lowerText = int (match_count (regex (lit word) ''g'') lowerText)"

definition analyzeSentiment :: "string \<Rightarrow> rat" where
  "analyzeSentiment text =
     (let lowerText = toLowerCase text;
          score0 = 0;
          score1 = fold (\<lambda>word sc. sc + count_matches word lowerText * 1) positiveWords score0;
          score2 = fold (\<lambda>word sc. sc - count_matches word lowerText * 1) negativeWords score1;
          wordCount = length (split_space text)
      in max (- 1) (min 1 (of_int score2 / max (of_nat wordCount * (1 / 10)) 1)))"

section \<open>Termination of the extraction loops\<close>

text \<open>An expression that cannot match the empty text.\<close>

fun consumes :: "rx \<Rightarrow> bool" where
  "consumes Eps = False"
| "consumes (Cls its) = True"
| "consumes (NCls its) = True"
| "consumes Dot = True"
| "consumes (Cat r1 r2) = (consumes r1 \<or> consumes r2)"
| "consumes (Alt r1 r2) = (consumes r1 \<and> consumes r2)"
| "consumes (Rep mn mx g r) = (mn > 0 \<and> consumes r)"
| "consumes (Grp n r) = consumes r"
| "consumes Bol = False"
| "consumes Eol = False"
| "consumes Wb = False"

lemma rep_consumes:
  assumes b: "\<And>p c q c'. p \<le> N \<Longrightarrow> (q, c') \<in> set (f p c) \<Longrightarrow> p \<le> q \<and> q \<le> N"
    and s: "\<And>p c q c'. p \<le> N \<Longrightarrow> (q, c') \<in> set (f p c) \<Longrightarrow> p < q"
    and mn: "mn > 0" and p: "p \<le> N" and q: "(q, c') \<in> set (rep f g n mn mx p c)"
  shows "p < q"
proof (cases n)
  case 0
  with mn q show ?thesis by simp
next
  case (Suc k)
  with mn q obtain r d where r: "(r, d) \<in> set (f p c)"
    and rest: "(q, c') \<in> set (rep f g k (mn - 1) (dec_max mx) r d)"
    by (auto simp: Let_def split: if_splits)
  from s [OF p r] b [OF p r] have "p < r" "r \<le> N" by simp_all
  moreover from rep_bounds [of N f, OF b \<open>r \<le> N\<close> rest] have "r \<le> q" by simp
  ultimately show ?thesis by simp
qed

lemma ms_consumes:
  "consumes r \<Longrightarrow> p \<le> length s \<Longrightarrow> (q, c') \<in> set (ms ic r s p c) \<Longrightarrow> p < q"
proof (induction r arbitrary: p c q c')
  case (Cat r1 r2)
  from Cat.prems(3) obtain m d where m: "(m, d) \<in> set (ms ic r1 s p c)"
    and q: "(q, c') \<in> set (ms ic r2 s m d)" by auto
  from ms_bounds [OF Cat.prems(2) m] have pm: "p \<le> m" "m \<le> length s" by simp_all
  from ms_bounds [OF pm(2) q] have mq: "m \<le> q" by simp
  from Cat.prems(1) have "consumes r1 \<or> consumes r2" by simp
  then show ?case
  proof
    assume "consumes r1"
    from Cat.IH(1) [OF this Cat.prems(2) m] mq show ?thesis by simp
  next
    assume "consumes r2"
    from Cat.IH(2) [OF this pm(2) q] pm(1) show ?thesis by simp
  qed
next
  case (Alt r1 r2)
  from Alt.prems(3) have "(q, c') \<in> set (ms ic r1 s p c) \<or> (q, c') \<in> set (ms ic r2 s p c)"
    by simp
  with Alt.IH Alt.prems(1,2) show ?case by auto
next
  case (Rep mn mx g r)
  from Rep.prems(1) have mn: "mn > 0" and cr: "consumes r" by simp_all
  from Rep.prems(3) have q: "(q, c') \<in> set (rep (ms ic r s) g (mn + (length s - p)) mn mx p c)"
    by simp
  show ?case
  proof (rule rep_consumes [of "length s" "ms ic r s", OF _ _ mn Rep.prems(2) q])
    fix p c q c'
    assume "p \<le> length s" "(q, c') \<in> set (ms ic r s p c)"
    then show "p \<le> q \<and> q \<le> length s" by (rule ms_bounds)
  next
    fix p c q c'
    assume "p \<le> length s" "(q, c') \<in> set (ms ic r s p c)"
    with cr show "p < q" by (rule Rep.IH)
  qed
next
  case (Grp n r)
  from Grp.prems(3) obtain d where "(q, d) \<in> set (ms ic r s p c)" by auto
  with Grp.IH Grp.prems(1,2) show ?case by simp
qed (simp_all split: if_splits)

lemma search_SomeD:
  assumes "search ic r s li = Some m"
  shows "li \<le> m_index m" and "m_index m \<le> length s"
    and "(m_end m, m_groups m) \<in> set (ms ic r s (m_index m) Map.empty)"
proof -
  from assms first_match_upt [of ic r s li "Suc (length s)" m]
  have i: "li \<le> m_index m" "m_index m \<le> length s" and at: "match_at ic r s (m_index m) = Some m"
    by (simp_all add: search_def)
  from i show "li \<le> m_index m" and "m_index m \<le> length s" .
  from at show "(m_end m, m_groups m) \<in> set (ms ic r s (m_index m) Map.empty)"
    by (rule match_at_SomeD)
qed

text \<open>What \<open>exec\<close> returns for a global expression.\<close>

lemma exec_global_SomeD:
  assumes "global re" and "exec re s li = (Some m, li')"
  shows "search (ignoreCase re) (source re) s li = Some m" and "li' = m_end m" and "li \<le> length s"
  using assms by (auto simp: exec_def Let_def split: if_splits option.splits)

lemma exec_consumes:
  assumes g: "global re" and c: "consumes (source re)" and e: "exec re s li = (Some m, li')"
  shows "li \<le> m_index m \<and> m_index m < li' \<and> li' \<le> length s"
proof -
  from exec_global_SomeD [OF g e]
  have s: "search (ignoreCase re) (source re) s li = Some m" and l: "li' = m_end m" by simp_all
  from search_SomeD [OF s] ms_consumes [OF c] search_bounds [OF s] l show ?thesis by blast
qed

lemma while_exec_total:
  "global re \<Longrightarrow> consumes (source re) \<Longrightarrow> while_exec body re s li st \<noteq> None"
proof (induction body re s li st rule: while_exec.induct)
  case (1 body re s li st)
  note g = "1.prems"(1) and c = "1.prems"(2)
  show ?case
  proof (cases "exec re s li")
    case (Pair mo li')
    show ?thesis
    proof (cases mo)
      case None
      with Pair show ?thesis by (simp add: while_exec.simps [of body re s li st])
    next
      case (Some m)
      with Pair have e: "exec re s li = (Some m, li')" by simp
      from exec_consumes [OF g c e] have lt: "\<not> li' \<le> li" by simp
      show ?thesis
      proof (cases "body st m")
        case (Inl e')
        with e show ?thesis by (simp add: while_exec.simps [of body re s li st])
      next
        case (Inr st')
        from "1.IH" [OF Pair [symmetric] Some Inr lt g c]
        have "while_exec body re s li' st' \<noteq> None" .
        with e Inr lt show ?thesis by (simp add: while_exec.simps [of body re s li st])
      qed
    qed
  qed
qed

lemma for_patterns_total:
  "\<forall>re \<in> set res. global re \<and> consumes (source re) \<Longrightarrow> for_patterns body res s st \<noteq> None"
proof (induction res arbitrary: st)
  case Nil
  show ?case by simp
next
  case (Cons re res)
  then have "while_exec body re s 0 st \<noteq> None" by (simp add: while_exec_total)
  then obtain x where x: "while_exec body re s 0 st = Some x" by blast
  show ?case
  proof (cases x)
    case (Inl e)
    with x show ?thesis by simp
  next
    case (Inr st')
    with x Cons.IH [of st'] Cons.prems show ?thesis by simp
  qed
qed

text \<open>A property of the state that the body keeps holds when the loops end.  The body
  only sees matches that \<open>exec\<close> returned.\<close>

definition keeps :: "('a \<Rightarrow> bool) \<Rightarrow> ('a \<Rightarrow> rmatch \<Rightarrow> error + 'a) \<Rightarrow> regexp \<Rightarrow> string \<Rightarrow> bool" where
  "keeps P body re s =
     (\<forall>st m st' li li'. P st \<and> exec re s li = (Some m, li') \<and> body st m = Inr st' \<longrightarrow> P st')"

lemma while_exec_invariant:
  "while_exec body re s li st = Some (Inr st') \<Longrightarrow> P st \<Longrightarrow> keeps P body re s \<Longrightarrow> P st'"
proof (induction body re s li st rule: while_exec.induct)
  case (1 body re s li st)
  show ?case
  proof (cases "exec re s li")
    case (Pair mo li')
    show ?thesis
    proof (cases mo)
      case None
      with Pair "1.prems"(1,2) show ?thesis by (simp add: while_exec.simps [of body re s li st])
    next
      case (Some m)
      with Pair have e: "exec re s li = (Some m, li')" by simp
      show ?thesis
      proof (cases "body st m")
        case (Inl e')
        with e "1.prems"(1) show ?thesis by (simp add: while_exec.simps [of body re s li st])
      next
        case (Inr st1)
        with e "1.prems"(1) have lt: "\<not> li' \<le> li"
          and w: "while_exec body re s li' st1 = Some (Inr st')"
          by (simp_all add: while_exec.simps [of body re s li st] split: if_splits)
        from "1.prems"(2,3) e Inr have "P st1" unfolding keeps_def by blast
        with "1.IH" [OF Pair [symmetric] Some Inr lt w] "1.prems"(3) show ?thesis by simp
      qed
    qed
  qed
qed

lemma for_patterns_invariant:
  "for_patterns body res s st = Some (Inr st') \<Longrightarrow> P st \<Longrightarrow> \<forall>re \<in> set res. keeps P body re s
     \<Longrightarrow> P st'"
proof (induction res arbitrary: st)
  case Nil
  then show ?case by simp
next
  case (Cons re res)
  from Cons.prems(1) obtain st1 where w: "while_exec body re s 0 st = Some (Inr st1)"
    and f: "for_patterns body res s st1 = Some (Inr st')"
    by (auto split: option.splits sum.splits)
  from Cons.prems(3) have k: "keeps P body re s" by simp
  from while_exec_invariant [where P = P, OF w Cons.prems(2) k] have "P st1" .
  with Cons.IH [OF f] Cons.prems(3) show ?case by simp
qed

section \<open>Confidence scores\<close>

text \<open>The number of indicators that match a text.\<close>

definition matched :: "regexp list \<Rightarrow> string \<Rightarrow> nat" where
  "matched indicators text = length (filter (\<lambda>indicator. fst (test indicator text 0)) indicators)"

lemma add_indicators_eq:
  "add_indicators indicators step text base = base + step * of_nat (matched indicators text)"
  unfolding add_indicators_def matched_def
  by (induction indicators arbitrary: base) (simp_all add: algebra_simps)

lemma matched_le: "matched indicators text \<le> length indicators"
  by (simp add: matched_def)

lemma add_indicators_nonneg:
  "0 \<le> base \<Longrightarrow> 0 \<le> step \<Longrightarrow> 0 \<le> add_indicators indicators step text base"
  by (simp add: add_indicators_eq)

lemma calculateMentionConfidence_bounds:
  "0 \<le> calculateMentionConfidence ctx tid \<and> calculateMentionConfidence ctx tid \<le> 1"
  by (simp add: calculateMentionConfidence_def add_indicators_nonneg)

lemma calculateActionConfidence_bounds:
  "0 \<le> calculateActionConfidence a \<and> calculateActionConfidence a \<le> 1"
  by (simp add: calculateActionConfidence_def add_indicators_nonneg)

lemma calculateDecisionConfidence_bounds:
  "0 \<le> calculateDecisionConfidence d \<and> calculateDecisionConfidence d \<le> 1"
  by (simp add: calculateDecisionConfidence_def add_indicators_nonneg)

subsection \<open>The loops of the extractors end\<close>

lemma consumes_cats: "rs \<noteq> [] \<Longrightarrow> \<forall>r \<in> set rs. consumes r \<Longrightarrow> consumes (cats rs)"
  by (induction rs rule: cats.induct) simp_all

lemma consumes_lit: "w \<noteq> [] \<Longrightarrow> consumes (lit w)"
  unfolding lit_def by (rule consumes_cats) (auto simp: chr_def)

lemma ticket_patterns_consume:
  "\<forall>re \<in> set ticket_patterns. global re \<and> consumes (source re)"
  by (simp add: ticket_patterns_def regex_def ticket_key_def rrange_def rplus_def chr_def AZ_def
      dg_def)

lemma extractTicketMentions_total: "\<exists>mns. extractTicketMentions t = Some mns"
proof -
  have "for_patterns (mention_body t) ticket_patterns t ([], []) \<noteq> None"
    by (rule for_patterns_total [OF ticket_patterns_consume])
  then obtain x where "for_patterns (mention_body t) ticket_patterns t ([], []) = Some x" by auto
  then show ?thesis by (cases x) (simp_all add: extractTicketMentions_def)
qed

lemma consumes_alts: "rs \<noteq> [] \<Longrightarrow> \<forall>r \<in> set rs. consumes r \<Longrightarrow> consumes (alts rs)"
  by (induction rs rule: alts.induct) simp_all

lemma consumes_words: "ws \<noteq> [] \<Longrightarrow> [] \<notin> set ws \<Longrightarrow> consumes (words ws)"
  unfolding words_def by (rule consumes_alts) (auto intro!: consumes_lit)

lemma span_with_consumes:
  "ws \<noteq> [] \<Longrightarrow> [] \<notin> set ws \<Longrightarrow> global (span_with ws) \<and> consumes (source (span_with ws))"
  by (simp add: span_with_def regex_def consumes_words)

lemma actionPatterns_consume:
  "\<forall>re \<in> set actionPatterns. global re \<and> consumes (source re)"
  by (simp add: actionPatterns_def span_with_consumes)

lemma decisionPatterns_consume:
  "\<forall>re \<in> set decisionPatterns. global re \<and> consumes (source re)"
  by (simp add: decisionPatterns_def span_with_consumes)

lemma namePatterns_consume:
  "\<forall>re \<in> set namePatterns. global re \<and> consumes (source re)"
  by (simp add: namePatterns_def regex_def capital_word_def AZ_def)

lemma extractActionItems_total: "\<exists>acts. extractActionItems f t = Some acts"
proof -
  have "for_patterns (action_body t) actionPatterns t [] \<noteq> None"
    by (rule for_patterns_total [OF actionPatterns_consume])
  then obtain x where "for_patterns (action_body t) actionPatterns t [] = Some x" by auto
  then show ?thesis by (cases x) (simp_all add: extractActionItems_def)
qed

lemma extractKeyDecisions_total: "\<exists>ds. extractKeyDecisions f t = Some ds"
proof -
  have "for_patterns (decision_body t) decisionPatterns t [] \<noteq> None"
    by (rule for_patterns_total [OF decisionPatterns_consume])
  then obtain x where "for_patterns (decision_body t) decisionPatterns t [] = Some x" by auto
  then show ?thesis by (cases x) (simp_all add: extractKeyDecisions_def)
qed

lemma identifyParticipants_total: "\<exists>ns. identifyParticipants t = Some ns"
proof -
  have "for_patterns participant_body namePatterns t [] \<noteq> None"
    by (rule for_patterns_total [OF namePatterns_consume])
  then obtain x where "for_patterns participant_body namePatterns t [] = Some x" by auto
  then show ?thesis by (cases x) (simp_all add: identifyParticipants_def)
qed

subsection \<open>Removing duplicates keeps items of the list\<close>

lemma fuse_search_subset: "set (fuse_search f key items q) \<subseteq> set items"
  by (auto simp: fuse_search_def)

lemma fold_best_mem:
  "fold (\<lambda>r bestItem. if conf r > conf bestItem then r else bestItem) similar item
     \<in> insert item (set similar)"
proof (induction similar arbitrary: item)
  case Nil
  show ?case by simp
next
  case (Cons r similar)
  from Cons.IH [of "if conf r > conf item then r else item"] show ?case by auto
qed

lemma dedupe_step_subset:
  assumes "set (fst st) \<subseteq> set items" and "item \<in> set items"
  shows "set (fst (dedupe_step f key conf items item st)) \<subseteq> set items"
proof -
  let ?similar = "fuse_search f key items (key item)"
  have "fold (\<lambda>r bestItem. if conf r > conf bestItem then r else bestItem) ?similar item
          \<in> insert item (set ?similar)"
    by (rule fold_best_mem)
  with assms(2) fuse_search_subset [of f key items "key item"]
  have "fold (\<lambda>r bestItem. if conf r > conf bestItem then r else bestItem) ?similar item \<in> set items"
    by auto
  with assms(1) show ?thesis by (simp add: dedupe_step_def Let_def)
qed

lemma fold_dedupe_subset:
  "set (fst st) \<subseteq> set items \<Longrightarrow> set xs \<subseteq> set items
     \<Longrightarrow> set (fst (fold (dedupe_step f key conf items) xs st)) \<subseteq> set items"
proof (induction xs arbitrary: st)
  case Nil
  then show ?case by simp
next
  case (Cons x xs)
  from Cons.prems have "set (fst (dedupe_step f key conf items x st)) \<subseteq> set items"
    by (simp add: dedupe_step_subset)
  with Cons.IH [of "dedupe_step f key conf items x st"] Cons.prems(2) show ?case by simp
qed

lemma dedupe_subset: "set (dedupe f key conf items) \<subseteq> set items"
proof (cases "length items \<le> 1")
  case True
  then show ?thesis by (simp add: dedupe_def)
next
  case False
  have "set (fst (fold (dedupe_step f key conf items) items ([], []))) \<subseteq> set items"
    by (rule fold_dedupe_subset) simp_all
  with False show ?thesis by (simp add: dedupe_def)
qed

subsection \<open>The confidence of what the extractors return\<close>

lemma mentions_confidence:
  assumes "extractTicketMentions t = Some mns" and "m \<in> set mns"
  shows "0 \<le> confidence m \<and> confidence m \<le> 1"
proof -
  let ?P = "\<lambda>st :: string list \<times> mention list.
              \<forall>m \<in> set (snd st). 0 \<le> confidence m \<and> confidence m \<le> 1"
  from assms obtain st where
    f: "for_patterns (mention_body t) ticket_patterns t ([], []) = Some (Inr st)" and mns: "mns = snd st"
    by (auto simp: extractTicketMentions_def split: option.splits sum.splits)
  have "\<forall>re \<in> set ticket_patterns. keeps ?P (mention_body t) re t"
    unfolding keeps_def mention_body_def
    by (auto simp: Let_def calculateMentionConfidence_bounds split: option.splits if_splits)
  from for_patterns_invariant [where P = ?P, OF f _ this] have "?P st" by simp
  with mns assms(2) show ?thesis by auto
qed

lemma actions_confidence:
  assumes "extractActionItems f t = Some acts" and "a \<in> set acts"
  shows "0 \<le> actionConfidence a \<and> actionConfidence a \<le> 1"
proof -
  let ?P = "\<lambda>st :: action_item list. \<forall>a \<in> set st. 0 \<le> actionConfidence a \<and> actionConfidence a \<le> 1"
  from assms obtain st where
    f: "for_patterns (action_body t) actionPatterns t [] = Some (Inr st)"
    and acts: "acts = take 10 (filter (\<lambda>a. actionConfidence a > 3 / 10) (removeDuplicateActions f st))"
    by (auto simp: extractActionItems_def split: option.splits sum.splits)
  have "\<forall>re \<in> set actionPatterns. keeps ?P (action_body t) re t"
    unfolding keeps_def action_body_def
    by (auto simp: Let_def calculateActionConfidence_bounds split: option.splits if_splits)
  from for_patterns_invariant [where P = ?P, OF f _ this] have P: "?P st" by simp
  from assms(2) acts have "a \<in> set (removeDuplicateActions f st)"
    by (auto dest: in_set_takeD)
  with dedupe_subset [of f action actionConfidence st] have "a \<in> set st"
    by (auto simp: removeDuplicateActions_def)
  with P show ?thesis by simp
qed

lemma decisions_confidence:
  assumes "extractKeyDecisions f t = Some ds" and "d \<in> set ds"
  shows "0 \<le> decisionConfidence d \<and> decisionConfidence d \<le> 1"
proof -
  let ?P = "\<lambda>st :: decision_item list.
              \<forall>d \<in> set st. 0 \<le> decisionConfidence d \<and> decisionConfidence d \<le> 1"
  from assms obtain st where
    f: "for_patterns (decision_body t) decisionPatterns t [] = Some (Inr st)"
    and ds: "ds = take 8 (filter (\<lambda>d. decisionConfidence d > 4 / 10) (removeDuplicateDecisions f st))"
    by (auto simp: extractKeyDecisions_def split: option.splits sum.splits)
  have "\<forall>re \<in> set decisionPatterns. keeps ?P (decision_body t) re t"
    unfolding keeps_def decision_body_def
    by (auto simp: Let_def calculateDecisionConfidence_bounds split: option.splits if_splits)
  from for_patterns_invariant [where P = ?P, OF f _ this] have P: "?P st" by simp
  from assms(2) ds have "d \<in> set (removeDuplicateDecisions f st)"
    by (auto dest: in_set_takeD)
  with dedupe_subset [of f decision decisionConfidence st] have "d \<in> set st"
    by (auto simp: removeDuplicateDecisions_def)
  with P show ?thesis by simp
qed

section \<open>Claims about the confidence scores\<close>

text \<open>
  C4.  The three confidence functions share one rule: a base, a step for every indicator
  that matches, and a cap at 1.  Mentions start at 0.5 and decisions at 0.4, both with a step
  of 0.1.  Action items start at 0.3, and their step is 0.15, not 0.1.
\<close>

theorem confidence_base_step_cap:
  "calculateMentionConfidence ctx tid = min (1 / 2 + 1 / 10 * of_nat (matched mention_indicators ctx)) 1
   \<and> calculateActionConfidence a = min (3 / 10 + 15 / 100 * of_nat (matched action_indicators a)) 1
   \<and> calculateDecisionConfidence d = min (4 / 10 + 1 / 10 * of_nat (matched decision_indicators d)) 1"
  by (simp add: calculateMentionConfidence_def calculateActionConfidence_def
      calculateDecisionConfidence_def add_indicators_eq)

text \<open>
  The action text \<open>we will do it\<close> matches one indicator (\<open>will\<close>).  Its confidence is 0.45,
  where a step of 0.1 would give 0.4.
\<close>

theorem action_confidence_step_counterexample:
  "matched action_indicators ''we will do it'' = 1
   \<and> calculateActionConfidence ''we will do it'' = 9 / 20
   \<and> calculateActionConfidence ''we will do it''
       \<noteq> min (3 / 10 + 1 / 10 * of_nat (matched action_indicators ''we will do it'')) 1"
proof -
  have m: "matched action_indicators ''we will do it'' = 1" by code_simp
  have c: "calculateActionConfidence ''we will do it'' = 9 / 20"
    by (simp add: calculateActionConfidence_def add_indicators_eq m)
  from m c show ?thesis by simp
qed

text \<open>
  C6.  Every extractor returns, and every confidence of a ticket mention, an action item or
  a decision it returns lies between 0 and 1, whatever the fuzzy search finds.
\<close>

theorem confidence_in_unit_interval:
  "(\<exists>mns. extractTicketMentions t = Some mns
       \<and> (\<forall>m \<in> set mns. 0 \<le> confidence m \<and> confidence m \<le> 1))
   \<and> (\<exists>acts. extractActionItems f t = Some acts
       \<and> (\<forall>a \<in> set acts. 0 \<le> actionConfidence a \<and> actionConfidence a \<le> 1))
   \<and> (\<exists>decs. extractKeyDecisions f t = Some decs
       \<and> (\<forall>d \<in> set decs. 0 \<le> decisionConfidence d \<and> decisionConfidence d \<le> 1))"
proof (intro conjI)
  from extractTicketMentions_total [of t] obtain mns where "extractTicketMentions t = Some mns" ..
  with mentions_confidence [of t mns]
  show "\<exists>mns. extractTicketMentions t = Some mns
          \<and> (\<forall>m \<in> set mns. 0 \<le> confidence m \<and> confidence m \<le> 1)"
    by blast
next
  from extractActionItems_total [of f t] obtain acts where "extractActionItems f t = Some acts" ..
  with actions_confidence [of f t acts]
  show "\<exists>acts. extractActionItems f t = Some acts
          \<and> (\<forall>a \<in> set acts. 0 \<le> actionConfidence a \<and> actionConfidence a \<le> 1)"
    by blast
next
  from extractKeyDecisions_total [of f t] obtain decs where "extractKeyDecisions f t = Some decs" ..
  with decisions_confidence [of f t decs]
  show "\<exists>decs. extractKeyDecisions f t = Some decs
          \<and> (\<forall>d \<in> set decs. 0 \<le> decisionConfidence d \<and> decisionConfidence d \<le> 1)"
    by blast
qed

text \<open>The transcript \<open>we decided AB-1 will go\<close> gives one mention, one action item and one
  decision, with confidence 0.5, 0.45 and 0.5.\<close>

theorem confidence_in_unit_interval_witness:
  "(\<exists>m. extractTicketMentions ''we decided AB-1 will go'' = Some [m]
       \<and> 0 \<le> confidence m \<and> confidence m \<le> 1)
   \<and> (\<exists>a. extractActionItems (\<lambda>keys q. []) ''we decided AB-1 will go'' = Some [a]
       \<and> 0 \<le> actionConfidence a \<and> actionConfidence a \<le> 1)
   \<and> (\<exists>d. extractKeyDecisions (\<lambda>keys q. []) ''we decided AB-1 will go'' = Some [d]
       \<and> 0 \<le> decisionConfidence d \<and> decisionConfidence d \<le> 1)"
proof -
  have "map_option length (extractTicketMentions ''we decided AB-1 will go'') = Some (Suc 0)"
    by code_simp
  then have m: "\<exists>m. extractTicketMentions ''we decided AB-1 will go'' = Some [m]"
    by (auto simp: length_Suc_conv)
  have "map_option length (extractActionItems (\<lambda>keys q. []) ''we decided AB-1 will go'') = Some (Suc 0)"
    by code_simp
  then have a: "\<exists>a. extractActionItems (\<lambda>keys q. []) ''we decided AB-1 will go'' = Some [a]"
    by (auto simp: length_Suc_conv)
  have "map_option length (extractKeyDecisions (\<lambda>keys q. []) ''we decided AB-1 will go'') = Some (Suc 0)"
    by code_simp
  then have d: "\<exists>d. extractKeyDecisions (\<lambda>keys q. []) ''we decided AB-1 will go'' = Some [d]"
    by (auto simp: length_Suc_conv)
  from m a d confidence_in_unit_interval [of "''we decided AB-1 will go''" "\<lambda>keys q. []"]
  show ?thesis by auto
qed

section \<open>Claims about the pipeline\<close>

subsection \<open>The cleaned transcript\<close>

text \<open>The transcript with every run of white space replaced by one space, and trimmed.\<close>

definition normalized :: "string \<Rightarrow> string" where
  "normalized t = trim (replace_all (regex (rplus sp) ''g'') t '' '')"

text \<open>The text that the extractors read: cut to the maximum and marked when it is longer.\<close>

definition clean_text :: "string \<Rightarrow> nat option \<Rightarrow> string" where
  "clean_text t maxLength =
     (case maxLength of
        None \<Rightarrow> normalized t
      | Some m \<Rightarrow> if length (normalized t) > m then take m (normalized t) @ ''...'' else normalized t)"

lemma cleanTranscript_invalid:
  "\<not> is_string v \<or> v = JSString [] \<Longrightarrow> cleanTranscript v maxLength = Inl (Error ''Invalid transcript provided'')"
  by (cases v) (auto simp: cleanTranscript_def)

lemma cleanTranscript_string:
  "t \<noteq> [] \<Longrightarrow> cleanTranscript (JSString t) maxLength = Inr (clean_text t maxLength)"
  by (simp add: cleanTranscript_def clean_text_def normalized_def substring_def Let_def
      split: option.splits)

lemma processMeeting_invalid:
  "\<not> is_string v \<or> v = JSString [] \<Longrightarrow>
     processMeeting f now v tier
       = Some (Inl (Error ''Meeting processing failed: Invalid transcript provided''))"
  by (simp add: processMeeting_def Let_def cleanTranscript_invalid)

text \<open>What \<open>processMeeting\<close> returns for a string that is not empty, from what the
  extractors return on the cleaned text.\<close>

lemma processMeeting_returns:
  assumes "t \<noteq> []"
    and "clean = clean_text t (config_maxTranscriptLength (config_for (default_tier tier)))"
    and "extractTicketMentions clean = Some mns"
    and "extractActionItems f clean = Some acts"
    and "extractKeyDecisions f clean = Some decs"
    and "identifyParticipants clean = Some names"
  shows "processMeeting f now (JSString t) tier =
           Some (Inr \<lparr>transcript = clean, ticketMentions = mns,
                      summary = generateBasicSummary clean
                                  (config_summaryLength (config_for (default_tier tier))),
                      actionItems = acts, keyDecisions = decs, participants = names,
                      processingTier = default_tier tier, processedAt = now,
                      wordCount = length (split_space clean)\<rparr>)"
  using assms
  by (simp add: processMeeting_def Let_def cleanTranscript_string generateAISummary_def)

lemma processMeeting_string:
  assumes "t \<noteq> []"
  shows "\<exists>mns acts decs names.
           extractTicketMentions (clean_text t (config_maxTranscriptLength (config_for (default_tier tier)))) = Some mns
         \<and> extractActionItems f (clean_text t (config_maxTranscriptLength (config_for (default_tier tier)))) = Some acts
         \<and> extractKeyDecisions f (clean_text t (config_maxTranscriptLength (config_for (default_tier tier)))) = Some decs
         \<and> identifyParticipants (clean_text t (config_maxTranscriptLength (config_for (default_tier tier)))) = Some names
         \<and> processMeeting f now (JSString t) tier =
             Some (Inr \<lparr>transcript = clean_text t (config_maxTranscriptLength (config_for (default_tier tier))),
                        ticketMentions = mns,
                        summary = generateBasicSummary
                                    (clean_text t (config_maxTranscriptLength (config_for (default_tier tier))))
                                    (config_summaryLength (config_for (default_tier tier))),
                        actionItems = acts, keyDecisions = decs, participants = names,
                        processingTier = default_tier tier, processedAt = now,
                        wordCount = length (split_space
                          (clean_text t (config_maxTranscriptLength (config_for (default_tier tier)))))\<rparr>)"
proof -
  let ?clean = "clean_text t (config_maxTranscriptLength (config_for (default_tier tier)))"
  from extractTicketMentions_total obtain mns where 1: "extractTicketMentions ?clean = Some mns" ..
  from extractActionItems_total obtain acts where 2: "extractActionItems f ?clean = Some acts" ..
  from extractKeyDecisions_total obtain decs where 3: "extractKeyDecisions f ?clean = Some decs" ..
  from identifyParticipants_total obtain names where 4: "identifyParticipants ?clean = Some names" ..
  from processMeeting_returns [OF assms refl 1 2 3 4, of now] 1 2 3 4 show ?thesis by blast
qed

subsection \<open>A text without the characters of a class\<close>

lemma ms_rplus_class_empty:
  "\<not> (p < length s \<and> class_has ic its (s ! p)) \<Longrightarrow> ms ic (rplus (Cls its)) s p c = []"
  by (auto simp: rplus_def Let_def)

lemma first_match_None: "\<forall>i \<in> set xs. f i = None \<Longrightarrow> first_match f xs = None"
  by (induction xs) simp_all

lemma search_class_None:
  assumes "\<forall>x \<in> set s. \<not> class_has ic its x"
  shows "search ic (rplus (Cls its)) s li = None"
proof -
  have "match_at ic (rplus (Cls its)) s i = None" for i
    using assms by (simp add: match_at_def ms_rplus_class_empty)
  then show ?thesis by (simp add: search_def first_match_None)
qed

lemma trim_no_space: "\<forall>x \<in> set s. \<not> is_space x \<Longrightarrow> trim s = s"
proof -
  assume a: "\<forall>x \<in> set s. \<not> is_space x"
  have d: "dropWhile is_space xs = xs" if "\<forall>x \<in> set xs. \<not> is_space x" for xs
    using that by (cases xs) simp_all
  from a have "dropWhile is_space s = s" by (rule d)
  moreover from a have "dropWhile is_space (rev s) = rev s" by (intro d) simp
  ultimately show ?thesis by (simp add: trim_def)
qed

lemma normalized_no_space:
  assumes "\<forall>x \<in> set t. \<not> is_space x"
  shows "normalized t = t"
proof -
  from assms have "\<forall>x \<in> set t. \<not> class_has False [Space] x" by (simp add: class_has_def)
  then have "search False (rplus (Cls [Space])) t 0 = None" by (rule search_class_None)
  then have "match_loop False (rplus (Cls [Space])) t 0 = []"
    by (simp add: match_loop.simps [of _ _ t 0])
  then have "replace_all (regex (rplus sp) ''g'') t '' '' = t"
    by (simp add: replace_all_def regex_def sp_def)
  with assms show ?thesis by (simp add: normalized_def trim_no_space)
qed

lemma split_loop_no_match:
  assumes "\<forall>q < length s. ms ic r s q Map.empty = []"
  shows "q \<le> length s \<Longrightarrow> split_loop ic r s p q = [substring s p (length s)]"
proof (induction "length s - q" arbitrary: q)
  case 0
  then show ?case by (simp add: split_loop.simps [of ic r s p q])
next
  case (Suc n)
  then have q: "q < length s" by simp
  with assms have "ms ic r s q Map.empty = []" by simp
  moreover from Suc.hyps(1) [of "q + 1"] Suc.hyps(2) q
  have "split_loop ic r s p (q + 1) = [substring s p (length s)]" by simp
  ultimately show ?case using q by (simp add: split_loop.simps [of ic r s p q])
qed

lemma split_no_separator:
  assumes "s \<noteq> []" and "\<forall>x \<in> set s. \<not> class_has (ignoreCase re) its x"
    and "source re = rplus (Cls its)"
  shows "split re s = [s]"
proof -
  from assms(2) have "\<forall>q < length s. ms (ignoreCase re) (rplus (Cls its)) s q Map.empty = []"
    by (simp add: ms_rplus_class_empty)
  from split_loop_no_match [OF this, of 0 0] assms(1,3) show ?thesis
    by (simp add: split_def substring_def)
qed

subsection \<open>Invalid input\<close>

text \<open>
  C2.  \<open>processMeeting\<close> throws the invalid-input error when the transcript argument is
  missing, is not a string, or is the empty string, and in no other case: for every string
  that is not empty it returns a record.  The test comes before the trimming, so a string
  of white space only is not rejected.
\<close>

theorem invalid_input_only_abort:
  "(\<not> is_string v \<or> v = JSString [] \<longrightarrow>
      processMeeting f now v tier
        = Some (Inl (Error ''Meeting processing failed: Invalid transcript provided'')))
   \<and> (is_string v \<and> v \<noteq> JSString [] \<longrightarrow> (\<exists>r. processMeeting f now v tier = Some (Inr r)))"
proof (intro conjI impI)
  assume "\<not> is_string v \<or> v = JSString []"
  then show "processMeeting f now v tier
               = Some (Inl (Error ''Meeting processing failed: Invalid transcript provided''))"
    by (rule processMeeting_invalid)
next
  assume "is_string v \<and> v \<noteq> JSString []"
  then obtain t where "v = JSString t" "t \<noteq> []" by (cases v) auto
  with processMeeting_string [of t tier f now]
  show "\<exists>r. processMeeting f now v tier = Some (Inr r)" by blast
qed

theorem invalid_input_only_abort_witness:
  "processMeeting (\<lambda>keys q. []) ''now'' JSUndefined TierUndefined
     = Some (Inl (Error ''Meeting processing failed: Invalid transcript provided''))
   \<and> processMeeting (\<lambda>keys q. []) ''now'' (JSNumber 7) TierUndefined
     = Some (Inl (Error ''Meeting processing failed: Invalid transcript provided''))
   \<and> processMeeting (\<lambda>keys q. []) ''now'' (JSString []) TierUndefined
     = Some (Inl (Error ''Meeting processing failed: Invalid transcript provided''))
   \<and> (\<exists>r. processMeeting (\<lambda>keys q. []) ''now'' (JSString ''Hello'') TierUndefined = Some (Inr r))"
  using invalid_input_only_abort [of JSUndefined "\<lambda>keys q. []" "''now''" TierUndefined]
    invalid_input_only_abort [of "JSNumber 7" "\<lambda>keys q. []" "''now''" TierUndefined]
    invalid_input_only_abort [of "JSString []" "\<lambda>keys q. []" "''now''" TierUndefined]
    invalid_input_only_abort [of "JSString ''Hello''" "\<lambda>keys q. []" "''now''" TierUndefined]
  by simp

text \<open>
  The transcript of one space is empty after trimming, and \<open>processMeeting\<close> does not
  throw: every extractor runs on the empty text.
\<close>

lemma extractors_empty:
  "extractTicketMentions [] = Some []" "extractActionItems (\<lambda>keys q. []) [] = Some []"
  "extractKeyDecisions (\<lambda>keys q. []) [] = Some []" "identifyParticipants [] = Some []"
  by code_simp+

theorem blank_transcript_counterexample:
  "trim '' '' = []
   \<and> processMeeting (\<lambda>keys q. []) ''now'' (JSString '' '') (TierString ''basic'')
     = Some (Inr \<lparr>transcript = [], ticketMentions = [],
                  summary = ''Meeting transcript too short to summarize.'',
                  actionItems = [], keyDecisions = [], participants = [],
                  processingTier = TierString ''basic'', processedAt = ''now'', wordCount = 1\<rparr>)"
proof -
  have t: "trim '' '' = []" by code_simp
  have n: "normalized '' '' = []" by code_simp
  have c: "[] = clean_text '' '' (config_maxTranscriptLength (config_for (default_tier (TierString ''basic''))))"
    by (simp add: clean_text_def n config_for_def config_get_def default_tier_def)
  have s: "generateBasicSummary [] x = ''Meeting transcript too short to summarize.''" for x
    by (simp add: generateBasicSummary_def)
  from processMeeting_returns [OF _ c extractors_empty, of "''now''"] t s show ?thesis
    by (simp add: default_tier_def)
qed

subsection \<open>Tiers without a configuration\<close>

lemma config_for_basic:
  assumes "property_key (default_tier tier) \<notin> set (''ai'' # object_prototype_keys)"
  shows "config_for (default_tier tier) = Own config_basic"
  using assms by (simp add: config_for_def config_get_def)

text \<open>
  C10.  For every tier argument that is not \<open>'ai'\<close> and not the name of a property that the
  configuration object inherits (\<open>'constructor'\<close>, \<open>'toString'\<close>, ...), \<open>processMeeting\<close> takes
  the configuration of \<open>'basic'\<close> (50000 and 500) and does what it does for \<open>'basic'\<close>; the
  record it returns is the one for \<open>'basic'\<close> except for \<open>processingTier\<close>, which is the
  tier that was given.
\<close>

theorem unknown_tier_uses_basic:
  assumes "property_key (default_tier tier) \<notin> set (''ai'' # object_prototype_keys)"
  shows "config_for (default_tier tier)
           = Own \<lparr>useAI = False, maxTranscriptLength = 50000, summaryLength = 500\<rparr>
         \<and> processMeeting f now v tier
           = map_option (map_sum id (\<lambda>r. r\<lparr>processingTier := default_tier tier\<rparr>))
               (processMeeting f now v (TierString ''basic''))"
proof -
  from assms have c: "config_for (default_tier tier) = Own config_basic" by (rule config_for_basic)
  have b: "config_for (default_tier (TierString ''basic'')) = Own config_basic"
    by (rule config_for_basic) (simp add: default_tier_def object_prototype_keys_def)
  have "processMeeting f now v tier
          = map_option (map_sum id (\<lambda>r. r\<lparr>processingTier := default_tier tier\<rparr>))
              (processMeeting f now v (TierString ''basic''))"
  proof (cases "\<not> is_string v \<or> v = JSString []")
    case True
    then show ?thesis by (simp add: processMeeting_invalid)
  next
    case False
    then obtain t where v: "v = JSString t" and t: "t \<noteq> []" by (cases v) auto
    let ?clean = "clean_text t (Some (maxTranscriptLength config_basic))"
    from extractTicketMentions_total obtain mns where 1: "extractTicketMentions ?clean = Some mns" ..
    from extractActionItems_total obtain acts where 2: "extractActionItems f ?clean = Some acts" ..
    from extractKeyDecisions_total obtain decs where 3: "extractKeyDecisions f ?clean = Some decs" ..
    from identifyParticipants_total obtain names where 4: "identifyParticipants ?clean = Some names" ..
    have "?clean = clean_text t (config_maxTranscriptLength (config_for (default_tier tier)))"
      by (simp add: c)
    from processMeeting_returns [OF t this 1 2 3 4, of now]
    have x: "processMeeting f now v tier =
           Some (Inr \<lparr>transcript = ?clean, ticketMentions = mns,
                      summary = generateBasicSummary ?clean (Some (summaryLength config_basic)),
                      actionItems = acts, keyDecisions = decs, participants = names,
                      processingTier = default_tier tier, processedAt = now,
                      wordCount = length (split_space ?clean)\<rparr>)"
      by (simp add: v c)
    have "?clean = clean_text t (config_maxTranscriptLength (config_for (default_tier (TierString ''basic''))))"
      by (simp add: b)
    from processMeeting_returns [OF t this 1 2 3 4, of now]
    have y: "processMeeting f now v (TierString ''basic'') =
           Some (Inr \<lparr>transcript = ?clean, ticketMentions = mns,
                      summary = generateBasicSummary ?clean (Some (summaryLength config_basic)),
                      actionItems = acts, keyDecisions = decs, participants = names,
                      processingTier = default_tier (TierString ''basic''), processedAt = now,
                      wordCount = length (split_space ?clean)\<rparr>)"
      by (simp add: v b)
    from x y show ?thesis by simp
  qed
  with c show ?thesis by (simp add: config_basic_def)
qed

theorem unknown_tier_uses_basic_witness:
  "config_for (default_tier (TierString ''enterprise''))
     = Own \<lparr>useAI = False, maxTranscriptLength = 50000, summaryLength = 500\<rparr>
   \<and> processMeeting (\<lambda>keys q. []) ''now'' (JSString ''Hello'') (TierString ''enterprise'')
     = map_option (map_sum id (\<lambda>r. r\<lparr>processingTier := TierString ''enterprise''\<rparr>))
         (processMeeting (\<lambda>keys q. []) ''now'' (JSString ''Hello'') (TierString ''basic''))
   \<and> processMeeting (\<lambda>keys q. []) ''now'' (JSString ''Hello'') TierNull
     = map_option (map_sum id (\<lambda>r. r\<lparr>processingTier := TierNull\<rparr>))
         (processMeeting (\<lambda>keys q. []) ''now'' (JSString ''Hello'') (TierString ''basic''))"
  using unknown_tier_uses_basic [of "TierString ''enterprise''" "\<lambda>keys q. []" "''now''" "JSString ''Hello''"]
    unknown_tier_uses_basic [of TierNull "\<lambda>keys q. []" "''now''" "JSString ''Hello''"]
  by (simp add: default_tier_def object_prototype_keys_def)

text \<open>The records for \<open>'enterprise'\<close> and for \<open>'basic'\<close> differ: each names its own tier.\<close>

theorem enterprise_tier_counterexample:
  "processMeeting (\<lambda>keys q. []) ''now'' (JSString ''Hello'') (TierString ''enterprise'')
     \<noteq> processMeeting (\<lambda>keys q. []) ''now'' (JSString ''Hello'') (TierString ''basic'')"
proof -
  have h: "''Hello'' \<noteq> []" by simp
  from processMeeting_string [OF h, of "TierString ''enterprise''" "\<lambda>keys q. []" "''now''"]
  obtain r where r: "processMeeting (\<lambda>keys q. []) ''now'' (JSString ''Hello'') (TierString ''enterprise'')
      = Some (Inr r)" and "processingTier r = TierString ''enterprise''"
    by (auto simp: default_tier_def)
  moreover
  from processMeeting_string [OF h, of "TierString ''basic''" "\<lambda>keys q. []" "''now''"]
  obtain r' where "processMeeting (\<lambda>keys q. []) ''now'' (JSString ''Hello'') (TierString ''basic'')
      = Some (Inr r')" and "processingTier r' = TierString ''basic''"
    by (auto simp: default_tier_def)
  ultimately show ?thesis by auto
qed

subsection \<open>Truncation\<close>

text \<open>
  C3.  For a transcript (a string that is not empty) and a tier with a configuration, the
  record that \<open>processMeeting\<close> returns holds the normalized transcript when that is at most
  \<open>maxTranscriptLength\<close> long, and otherwise its first \<open>maxTranscriptLength\<close> characters
  followed by the marker \<open>...\<close>, so its length is then the maximum plus the length of the
  marker.  Every extractor reads the text of the record, and the word count is taken from it.
\<close>

theorem transcript_truncated_before_extraction:
  assumes "t \<noteq> []" and "config_for (default_tier tier) = Own cfg"
  shows "\<exists>r. processMeeting f now (JSString t) tier = Some (Inr r)
     \<and> transcript r = (if length (normalized t) > maxTranscriptLength cfg
                       then take (maxTranscriptLength cfg) (normalized t) @ ''...''
                       else normalized t)
     \<and> (length (normalized t) > maxTranscriptLength cfg
          \<longrightarrow> length (transcript r) = maxTranscriptLength cfg + length ''...'')
     \<and> extractTicketMentions (transcript r) = Some (ticketMentions r)
     \<and> summary r = generateBasicSummary (transcript r) (Some (summaryLength cfg))
     \<and> extractActionItems f (transcript r) = Some (actionItems r)
     \<and> extractKeyDecisions f (transcript r) = Some (keyDecisions r)
     \<and> identifyParticipants (transcript r) = Some (participants r)
     \<and> wordCount r = length (split_space (transcript r))"
proof -
  let ?clean = "clean_text t (config_maxTranscriptLength (config_for (default_tier tier)))"
  from processMeeting_string [OF assms(1), of tier f now]
  obtain mns acts decs names where e: "extractTicketMentions ?clean = Some mns"
    "extractActionItems f ?clean = Some acts" "extractKeyDecisions f ?clean = Some decs"
    "identifyParticipants ?clean = Some names"
    and p: "processMeeting f now (JSString t) tier =
             Some (Inr \<lparr>transcript = ?clean, ticketMentions = mns,
                        summary = generateBasicSummary ?clean
                                    (config_summaryLength (config_for (default_tier tier))),
                        actionItems = acts, keyDecisions = decs, participants = names,
                        processingTier = default_tier tier, processedAt = now,
                        wordCount = length (split_space ?clean)\<rparr>)"
    by blast
  have c: "?clean = (if length (normalized t) > maxTranscriptLength cfg
                     then take (maxTranscriptLength cfg) (normalized t) @ ''...''
                     else normalized t)"
    by (simp add: assms(2) clean_text_def)
  have l: "length (normalized t) > maxTranscriptLength cfg
             \<Longrightarrow> length ?clean = maxTranscriptLength cfg + length ''...''"
    by (simp add: c)
  from p e c l show ?thesis by (simp add: assms(2))
qed

text \<open>A transcript of 50001 letters in the basic tier is cut to 50000 letters and the
  marker; a short one is only normalized.\<close>

theorem transcript_truncated_before_extraction_witness:
  "(\<exists>r. processMeeting (\<lambda>keys q. []) ''now'' (JSString (replicate 50001 CHR ''a'')) (TierString ''basic'')
           = Some (Inr r)
        \<and> transcript r = replicate 50000 CHR ''a'' @ ''...''
        \<and> length (transcript r) = 50003
        \<and> extractTicketMentions (transcript r) = Some (ticketMentions r))
   \<and> (\<exists>r. processMeeting (\<lambda>keys q. []) ''now'' (JSString ''  Hello   world '') (TierString ''ai'')
           = Some (Inr r)
        \<and> transcript r = ''Hello world'')"
proof -
  have a: "normalized (replicate 50001 CHR ''a'') = replicate 50001 CHR ''a''"
    by (rule normalized_no_space) (simp add: is_space_def)
  have b: "config_for (default_tier (TierString ''basic'')) = Own config_basic"
    by (simp add: config_for_def config_get_def default_tier_def)
  have n: "replicate 50001 CHR ''a'' \<noteq> []" by simp
  have h: "normalized ''  Hello   world '' = ''Hello world''" by code_simp
  have i: "config_for (default_tier (TierString ''ai'')) = Own config_ai"
    by (simp add: config_for_def config_get_def default_tier_def)
  have m: "''  Hello   world '' \<noteq> []" by simp
  from transcript_truncated_before_extraction [OF n b, of "\<lambda>keys q. []" "''now''"]
    transcript_truncated_before_extraction [OF m i, of "\<lambda>keys q. []" "''now''"]
  show ?thesis by (simp add: a h config_basic_def config_ai_def) blast
qed

section \<open>Claims about the summary\<close>

subsection \<open>The length of the summary\<close>

lemma qualifying_one_sentence:
  assumes "10 < length s" and "\<forall>x \<in> set s. \<not> is_space x \<and> x \<notin> set ''.!?''"
  shows "qualifying_sentences s = [s]"
proof -
  from assms(1) have ne: "s \<noteq> []" by auto
  from assms(2) have "\<forall>x \<in> set s. \<not> class_has (ignoreCase sentence_separator)
      [Ch CHR ''.'', Ch CHR ''!'', Ch CHR ''?''] x"
    by (auto simp: class_has_def sentence_separator_def regex_def)
  from split_no_separator [OF ne this] have "split sentence_separator s = [s]"
    by (simp add: sentence_separator_def regex_def)
  moreover from assms(2) have "trim s = s" by (simp add: trim_no_space)
  ultimately show ?thesis using assms(1) by (simp add: qualifying_sentences_def)
qed

text \<open>
  C5.  The claim fails in the branch for three or fewer sentences, which returns the
  sentences joined and never looks at \<open>maxLength\<close>: a transcript of 600 letters without
  punctuation is one sentence, and its summary in the basic tier (maximum 500) is the 600
  letters and a full stop.
\<close>

theorem short_branch_summary_exceeds_maximum:
  "summaryLength config_basic = 500
   \<and> generateBasicSummary (replicate 600 CHR ''a'') (Some (summaryLength config_basic))
       = replicate 600 CHR ''a'' @ ''.''
   \<and> length (generateBasicSummary (replicate 600 CHR ''a'') (Some (summaryLength config_basic))) = 601"
proof -
  have q: "qualifying_sentences (replicate 600 CHR ''a'') = [replicate 600 CHR ''a'']"
    by (rule qualifying_one_sentence) (simp_all add: is_space_def)
  have t: "trim (replicate 600 CHR ''a'') = replicate 600 CHR ''a''"
    by (rule trim_no_space) (simp add: is_space_def)
  have "generateBasicSummary (replicate 600 CHR ''a'') (Some (summaryLength config_basic))
          = replicate 600 CHR ''a'' @ ''.''"
    by (simp add: generateBasicSummary_def q t)
  then show ?thesis by (simp add: config_basic_def)
qed

text \<open>The branch for more than three sentences does cut the summary to \<open>maxLength\<close>.\<close>

lemma long_branch_summary_bounded:
  assumes "50 \<le> length t" and "3 < length (qualifying_sentences t)" and "38 \<le> m"
  shows "length (generateBasicSummary t (Some m)) \<le> m"
proof -
  define joined where "joined = join ''. '' (map sentence (topSentences (qualifying_sentences t)))"
  define cut where "cut = (if length joined > m then substring joined 0 (m - 3) @ ''...'' else joined)"
  from assms(1) have ne: "t \<noteq> []" by auto
  have c: "length cut \<le> m"
    using assms(3) by (auto simp: cut_def substring_def)
  from ne assms(1,2)
  have g: "generateBasicSummary t (Some m)
             = (if cut = [] then ''Unable to generate meaningful summary.'' else cut)"
    by (simp add: generateBasicSummary_def Let_def joined_def cut_def)
  show ?thesis
  proof (cases "cut = []")
    case True
    with g assms(3) show ?thesis by simp
  next
    case False
    with g c show ?thesis by simp
  qed
qed

section \<open>Claims about the sentiment\<close>

text \<open>The occurrences of a word in a text, read from the left without overlap.\<close>

function occurrences :: "string \<Rightarrow> string \<Rightarrow> nat" where
  "occurrences w s =
     (if w = [] \<or> s = [] then 0
      else if prefix w s then 1 + occurrences w (drop (length w) s)
      else occurrences w (tl s))"
  by pat_completeness auto
termination
  by (relation "measure (\<lambda>(w, s). length s)") (auto simp: neq_Nil_conv)

declare occurrences.simps [simp del]

text \<open>The sentiment as the claim states it.\<close>

definition sentiment_formula :: "string \<Rightarrow> rat" where
  "sentiment_formula text =
     (let positives = sum_list (map (\<lambda>w. int (occurrences w (toLowerCase text))) positiveWords);
          negatives = sum_list (map (\<lambda>w. int (occurrences w (toLowerCase text))) negativeWords);
          wordCount = length (split_space text)
      in max (- 1) (min 1 (of_int (positives - negatives) / max (of_nat wordCount * (1 / 10)) 1)))"

lemma prefix_drop_Cons:
  "prefix (a # w) (drop p s) \<longleftrightarrow> p < length s \<and> s ! p = a \<and> prefix w (drop (Suc p) s)"
proof (cases "p < length s")
  case True
  then have "drop p s = s ! p # drop (Suc p) s" by (simp add: Cons_nth_drop_Suc)
  with True show ?thesis by auto
next
  case False
  then show ?thesis by simp
qed

lemma ms_chr: "ms False (chr a) s p c = (if p < length s \<and> s ! p = a then [(p + 1, c)] else [])"
  by (simp add: chr_def class_has_def)

lemma ms_lit:
  "ms False (lit w) s p c = (if prefix w (drop p s) then [(p + length w, c)] else [])"
proof (induction w arbitrary: p)
  case Nil
  show ?case by (simp add: lit_def)
next
  case (Cons a w)
  show ?case
  proof (cases w)
    case Nil
    then show ?thesis by (simp add: lit_def ms_chr prefix_drop_Cons)
  next
    case (Cons b w')
    then have "lit (a # w) = Cat (chr a) (lit w)" by (simp add: lit_def)
    with Cons.IH [of "p + 1"] show ?thesis by (simp add: ms_chr prefix_drop_Cons)
  qed
qed

lemma match_at_lit:
  "match_at False (lit w) s i =
     (if prefix w (drop i s) then Some \<lparr>m_index = i, m_end = i + length w, m_groups = Map.empty\<rparr>
      else None)"
  by (simp add: match_at_def ms_lit)

lemma search_unfold:
  "li \<le> length s \<Longrightarrow>
     search ic r s li = (case match_at ic r s li of Some m \<Rightarrow> Some m | None \<Rightarrow> search ic r s (Suc li))"
proof -
  assume "li \<le> length s"
  then have "[li..<Suc (length s)] = li # [Suc li..<Suc (length s)]"
    by (simp add: upt_conv_Cons del: upt_Suc)
  then show ?thesis by (simp add: search_def split: option.splits del: upt_Suc)
qed

lemma search_lit_here:
  assumes "li \<le> length s" and "prefix w (drop li s)"
  shows "search False (lit w) s li = Some \<lparr>m_index = li, m_end = li + length w, m_groups = Map.empty\<rparr>"
  using assms by (simp add: search_unfold match_at_lit)

lemma search_lit_next:
  assumes "li \<le> length s" and "\<not> prefix w (drop li s)"
  shows "search False (lit w) s li = search False (lit w) s (Suc li)"
  using assms by (simp add: search_unfold match_at_lit)

lemma match_loop_lit:
  "w \<noteq> [] \<Longrightarrow> li \<le> length s \<Longrightarrow> length (match_loop False (lit w) s li) = occurrences w (drop li s)"
proof (induction "length s - li" arbitrary: li rule: less_induct)
  case less
  note unfold = match_loop.simps [of False "lit w" s li]
  show ?case
  proof (cases "li = length s")
    case True
    with less.prems(1) have np: "\<not> prefix w (drop li s)" by simp
    have "search False (lit w) s (Suc li) = None"
      using True by (simp add: search_def)
    with search_lit_next [OF less.prems(2) np] have "search False (lit w) s li = None" by simp
    with unfold have "match_loop False (lit w) s li = []" by simp
    with True show ?thesis by (simp add: occurrences.simps [of w "[]"])
  next
    case False
    with less.prems(2) have lt: "li < length s" by simp
    then have ne: "drop li s \<noteq> []" by simp
    show ?thesis
    proof (cases "prefix w (drop li s)")
      case True
      then have "length w \<le> length (drop li s)" by (rule prefix_length_le)
      with lt have le: "li + length w \<le> length s" by simp
      from less.prems(1) lt have "length s - (li + length w) < length s - li" by (cases w) auto
      from less.hyps [OF this less.prems(1) le]
      have "length (match_loop False (lit w) s (li + length w))
              = occurrences w (drop (length w) (drop li s))"
        by (simp add: add.commute)
      moreover from search_lit_here [OF less.prems(2) True] less.prems(1,2) unfold
      have "match_loop False (lit w) s li
              = \<lparr>m_index = li, m_end = li + length w, m_groups = Map.empty\<rparr>
                  # match_loop False (lit w) s (li + length w)"
        by simp
      ultimately show ?thesis using True less.prems(1) ne
        by (simp add: occurrences.simps [of w "drop li s"])
    next
      case False
      from lt have "length s - Suc li < length s - li" by simp
      from less.hyps [OF this less.prems(1)] lt
      have "length (match_loop False (lit w) s (Suc li)) = occurrences w (drop (Suc li) s)"
        by simp
      moreover from search_lit_next [OF less.prems(2) False] lt unfold
        match_loop.simps [of False "lit w" s "Suc li"]
      have "match_loop False (lit w) s li = match_loop False (lit w) s (Suc li)"
        by simp
      ultimately show ?thesis using False less.prems(1) ne
        by (simp add: occurrences.simps [of w "drop li s"] drop_Suc tl_drop)
    qed
  qed
qed

lemma count_matches_occurrences: "w \<noteq> [] \<Longrightarrow> count_matches w s = int (occurrences w s)"
  using match_loop_lit [of w 0 s] by (simp add: count_matches_def match_count_def regex_def)

lemma fold_add_counts:
  "fold (\<lambda>word sc. sc + f word) ws (a :: int) = a + sum_list (map f ws)"
  by (induction ws arbitrary: a) simp_all

lemma fold_sub_counts:
  "fold (\<lambda>word sc. sc - f word) ws (a :: int) = a - sum_list (map f ws)"
  by (induction ws arbitrary: a) simp_all

lemma sum_counts_occurrences:
  "[] \<notin> set ws \<Longrightarrow>
     sum_list (map (\<lambda>w. count_matches w s) ws) = sum_list (map (\<lambda>w. int (occurrences w s)) ws)"
  by (induction ws) (auto simp: count_matches_occurrences)

text \<open>
  C8.  The sentiment of a text is the number of occurrences of the positive words minus
  that of the negative words in the lower-cased text, divided by the larger of a tenth of
  the word count and 1, and clamped to the interval from -1 to 1.  On the empty text it
  is 0.
\<close>

theorem sentiment_is_clamped_ratio:
  "analyzeSentiment s = sentiment_formula s
   \<and> - 1 \<le> analyzeSentiment s \<and> analyzeSentiment s \<le> 1
   \<and> analyzeSentiment [] = 0"
proof -
  have p: "[] \<notin> set positiveWords" by (simp add: positiveWords_def)
  have n: "[] \<notin> set negativeWords" by (simp add: negativeWords_def)
  have eq: "analyzeSentiment x = sentiment_formula x" for x
    by (simp add: analyzeSentiment_def sentiment_formula_def Let_def fold_add_counts
        fold_sub_counts sum_counts_occurrences [OF p] sum_counts_occurrences [OF n])
  have b: "- 1 \<le> analyzeSentiment s \<and> analyzeSentiment s \<le> 1"
    by (simp add: analyzeSentiment_def Let_def)
  have "sentiment_formula [] = 0"
    by (simp add: sentiment_formula_def toLowerCase_def occurrences.simps [of _ "[]"])
  with eq [of s] eq [of "[]"] b show ?thesis by simp
qed

section \<open>The summary of the text processor\<close>

text \<open>
  \<open>TextProcessor.generateSummary\<close> takes its sentences from the library nlp-compromise,
  which is outside the repository and a parameter here: \<open>nlp t\<close> is the list of the texts
  of \<open>nlp(t).sentences().data()\<close>, or \<open>None\<close> when the call throws.  The ticket pattern is
  a global expression that lives in the processor, so \<open>test\<close> reads and writes its
  \<open>lastIndex\<close>, which is passed along.
\<close>

definition ticketPattern :: regexp where
  "ticketPattern =
     regex (cats [Wb, Grp 1 (cats [AZ, rstar (Cls [Rng CHR ''A'' CHR ''Z'', Rng CHR ''0'' CHR ''9'']),
                                   chr CHR ''-'', rplus dg]), Wb]) ''g''"

definition actionWords :: "string list" where
  "actionWords = [''will'', ''should'', ''need to'', ''must'', ''todo'', ''action'', ''assign'', ''follow up'']"

definition decisionWords :: "string list" where
  "decisionWords = [''decided'', ''agreed'', ''conclusion'', ''final'', ''resolved'', ''determined'']"

record ranked =
  ranked_sentence :: string
  ranked_score :: int

text \<open>\<open>sentences.map((sentence, index) => ...)\<close> for \<open>n\<close> sentences, from the place \<open>i\<close>
  and the \<open>lastIndex\<close> \<open>li\<close> of the ticket pattern.\<close>

fun score_sentences :: "nat \<Rightarrow> nat \<Rightarrow> nat \<Rightarrow> string list \<Rightarrow> ranked list \<times> nat" where
  "score_sentences n i li [] = ([], li)"
| "score_sentences n i li (x # xs) =
     (let s0 = 0;
          s1 = (if dless (dnat i) (dmul (dnat n) (dlit 3 10)) then s0 + 2 else s0);
          s2 = (if dless (dmul (dnat n) (dlit 7 10)) (dnat i) then s1 + 1 else s1);
          lower = toLowerCase x;
          s3 = (if list_ex (\<lambda>word. includes_str lower word) actionWords then s2 + 3 else s2);
          s4 = (if list_ex (\<lambda>word. includes_str lower word) decisionWords then s3 + 3 else s3);
          hit = test ticketPattern x li;
          s5 = (if fst hit then s4 + 2 else s4);
          wc = length (split_space x);
          s6 = (if wc \<ge> 10 \<and> wc \<le> 30 then s5 + 1 else s5);
          rest = score_sentences n (i + 1) (snd hit) xs
      in (\<lparr>ranked_sentence = x, ranked_score = s6\<rparr> # fst rest, snd rest))"

text \<open>The summary and the \<open>lastIndex\<close> that the call leaves.\<close>

definition generateSummary :: "(string \<Rightarrow> string list option) \<Rightarrow> nat \<Rightarrow> string \<Rightarrow> string \<times> nat" where
  "generateSummary nlp lastIndex t =
     (case nlp t of
        None \<Rightarrow> (join ''. '' (take 2 (split sentence_separator t)), lastIndex)
      | Some sentences \<Rightarrow>
          (let scoredSentences = score_sentences (length sentences) 0 lastIndex sentences;
               top = map ranked_sentence (take 3 (sort_key (\<lambda>x. - ranked_score x) (fst scoredSentences)))
           in (join '' '' top, snd scoredSentences)))"

section \<open>Claims about the order of the summary\<close>

lemma sort_key_is_filter:
  assumes "sorted (map f xs)" and "distinct (map f xs)" and "set A \<subseteq> set xs"
    and "distinct (map f A)"
  shows "sort_key f A = filter (\<lambda>x. x \<in> set A) xs"
proof -
  from assms(2) have inj: "inj_on f (set xs)" by (simp add: distinct_map)
  have s1: "sorted (map f (sort_key f A))" by simp
  from assms(4) have "distinct A" and "inj_on f (set A)" by (simp_all add: distinct_map)
  then have d1: "distinct (map f (sort_key f A))" by (simp add: distinct_map)
  from assms(1) have s2: "sorted (map f (filter (\<lambda>x. x \<in> set A) xs))" by (rule sorted_filter)
  from assms(2) have d2: "distinct (map f (filter (\<lambda>x. x \<in> set A) xs))"
    by (rule distinct_map_filter)
  from assms(3) have "set (map f (sort_key f A)) = set (map f (filter (\<lambda>x. x \<in> set A) xs))"
    by auto
  with s1 d1 s2 d2 have "map f (sort_key f A) = map f (filter (\<lambda>x. x \<in> set A) xs)"
    by (intro sorted_distinct_set_unique)
  moreover from inj assms(3) have "inj_on f (set (sort_key f A) \<union> set (filter (\<lambda>x. x \<in> set A) xs))"
    by (auto intro: inj_on_subset)
  ultimately show ?thesis by (simp add: inj_on_map_eq_map)
qed

lemma index_score_sentence: "index (score_sentence n i x) = i"
  by (simp add: score_sentence_def Let_def)

lemma sentence_score_sentence: "sentence (score_sentence n i x) = trim x"
  by (simp add: score_sentence_def Let_def)

lemma index_scored:
  "map index (map (\<lambda>(i, x). score_sentence n i x) (enumerate 0 sentences)) = [0..<length sentences]"
proof -
  have "map index (map (\<lambda>(i, x). score_sentence n i x) (enumerate 0 sentences))
          = map fst (enumerate 0 sentences)"
    by (simp add: index_score_sentence case_prod_beta comp_def)
  then show ?thesis by simp
qed

lemma sentence_scored:
  "map sentence (map (\<lambda>(i, x). score_sentence n i x) (enumerate 0 sentences)) = map trim sentences"
proof -
  have "map sentence (map (\<lambda>(i, x). score_sentence n i x) (enumerate 0 sentences))
          = map (trim \<circ> snd) (enumerate 0 sentences)"
    by (simp add: sentence_score_sentence case_prod_beta comp_def)
  also have "\<dots> = map trim (map snd (enumerate 0 sentences))" by (simp only: map_map)
  also have "\<dots> = map trim sentences" by (simp only: map_snd_enumerate)
  finally show ?thesis .
qed

subsection \<open>The number of selected sentences\<close>

lemma bit_length_nonneg: "0 \<le> bit_length a"
proof (induction a rule: bit_length.induct)
  case (1 a)
  then show ?case by (simp add: bit_length.simps [of a])
qed

lemma bit_length_positive: "0 < a \<Longrightarrow> 1 \<le> bit_length a"
  using bit_length_nonneg [of "a div 2"] by (simp add: bit_length.simps [of a])

lemma bit_length_upper: "0 \<le> a \<Longrightarrow> a < 2 ^ nat (bit_length a)"
proof (induction a rule: bit_length.induct)
  case (1 a)
  show ?case
  proof (cases "a \<le> 0")
    case True
    with "1.prems" show ?thesis by (simp add: bit_length.simps [of a])
  next
    case False
    then have "0 \<le> a div 2" by simp
    with "1.IH" [OF False] have "a div 2 < 2 ^ nat (bit_length (a div 2))" by simp
    then have "a < 2 * 2 ^ nat (bit_length (a div 2))" by simp
    moreover from False bit_length_nonneg [of "a div 2"]
    have "nat (bit_length a) = Suc (nat (bit_length (a div 2)))"
      by (simp add: bit_length.simps [of a] nat_add_distrib)
    ultimately show ?thesis by simp
  qed
qed

lemma bit_length_lower: "0 < a \<Longrightarrow> 2 ^ nat (bit_length a - 1) \<le> a"
proof (induction a rule: bit_length.induct)
  case (1 a)
  from "1.prems" have b: "bit_length a = 1 + bit_length (a div 2)"
    by (simp add: bit_length.simps [of a])
  show ?case
  proof (cases "a div 2 = 0")
    case True
    then have "bit_length (a div 2) = bit_length 0" by simp
    also have "\<dots> = 0" by (simp add: bit_length.simps [of 0])
    finally have "bit_length (a div 2) = 0" .
    with b "1.prems" show ?thesis by simp
  next
    case False
    with "1.prems" have p: "0 < a div 2" by simp
    from "1.prems" have "\<not> a \<le> 0" by simp
    from "1.IH" [OF this p] have "2 ^ nat (bit_length (a div 2) - 1) \<le> a div 2" .
    then have "2 * 2 ^ nat (bit_length (a div 2) - 1) \<le> a" by simp
    moreover from bit_length_positive [OF p] b
    have "nat (bit_length a - 1) = Suc (nat (bit_length (a div 2) - 1))" by simp
    ultimately show ?thesis by simp
  qed
qed

lemma round_half_even_positive:
  assumes "0 < b" and "b < 2 * a"
  shows "0 < round_half_even a b"
proof -
  from assms have a: "0 < a" by simp
  with assms(1) have q: "0 \<le> a div b" by (simp add: pos_imp_zdiv_nonneg_iff)
  show ?thesis
  proof (cases "a div b = 0")
    case True
    with div_mult_mod_eq [of a b] have "a mod b = a" by simp
    with assms(2) True show ?thesis by (simp add: round_half_even_def Let_def)
  next
    case False
    with q have "0 < a div b" by simp
    then show ?thesis by (simp add: round_half_even_def Let_def)
  qed
qed

lemma power2_nat_mono: "x \<le> y \<Longrightarrow> (2::int) ^ nat x \<le> 2 ^ nat y"
  by (rule power_increasing) simp_all

lemma round_double_positive:
  assumes a: "0 < a" and b: "0 < b" and u: "52 + bit_length b \<le> bit_length a + e + 1074"
  shows "\<exists>m e'. round_double a b e = Double m e' \<and> 0 < m
           \<and> e + bit_length a \<le> e' + 53 + bit_length b"
proof -
  define la where "la = bit_length a"
  define lb where "lb = bit_length b"
  define k0 where "k0 = 53 - (la - lb)"
  define k1 where "k1 = (if scale2 b (53 - k0) \<le> scale2 a (k0 - 53) then k0 - 1 else k0)"
  define k where "k = min k1 (e + 1074)"
  define m where "m = round_half_even (scale2 a k) (scale2 b (- k))"
  from a have r: "round_double a b e = Double m (e - k)"
    by (simp add: round_double_def Let_def m_def k_def k1_def k0_def la_def lb_def)
  from bit_length_positive [OF a] have la: "1 \<le> la" by (simp add: la_def)
  from bit_length_positive [OF b] have lb: "1 \<le> lb" by (simp add: lb_def)
  from bit_length_lower [OF a] have al: "2 ^ nat (la - 1) \<le> a" by (simp add: la_def)
  from b bit_length_upper [of b] have bu: "b < 2 ^ nat lb" by (simp add: lb_def)
  have k1: "k0 - 1 \<le> k1" "k1 \<le> k0" by (simp_all add: k1_def)
  with u have kl: "52 - la + lb \<le> k" and ku: "k \<le> 53 - la + lb"
    by (simp_all add: k_def k0_def la_def lb_def)
  have "scale2 b (- k) < 2 * scale2 a k"
  proof (cases "0 \<le> k")
    case True
    then have B: "scale2 b (- k) = b" by (simp add: scale2_def)
    from True have A: "scale2 a k = a * 2 ^ nat k" by (simp add: scale2_def)
    from True la kl have "lb \<le> 1 + (la - 1) + k" by simp
    with True la have "nat lb \<le> Suc (nat (la - 1) + nat k)" by simp
    then have "(2::int) ^ nat lb \<le> 2 ^ Suc (nat (la - 1) + nat k)" by (rule power_increasing) simp
    also have "\<dots> = 2 * (2 ^ nat (la - 1) * 2 ^ nat k)" by (simp add: power_add)
    also from al have "\<dots> \<le> 2 * (a * 2 ^ nat k)" by simp
    finally show ?thesis using bu A B by simp
  next
    case False
    then have B: "scale2 b (- k) = b * 2 ^ nat (- k)" by (simp add: scale2_def)
    from False have A: "scale2 a k = a" by (simp add: scale2_def)
    from bu have "b * 2 ^ nat (- k) < 2 ^ nat lb * 2 ^ nat (- k)" by simp
    also have "\<dots> = 2 ^ (nat lb + nat (- k))" by (simp add: power_add)
    also have "\<dots> \<le> 2 ^ nat (la - 1)"
    proof (rule power_increasing)
      from False lb la kl show "nat lb + nat (- k) \<le> nat (la - 1)" by simp
    qed simp
    also note al
    finally show ?thesis using a A B by simp
  qed
  moreover from b have "0 < scale2 b (- k)" by (simp add: scale2_def)
  ultimately have "0 < m" unfolding m_def by (rule round_half_even_positive [rotated])
  with r ku show ?thesis by (simp add: la_def lb_def)
qed

lemma bit_length_one: "bit_length 1 = 1"
  by (simp add: bit_length.simps [of 1] bit_length.simps [of 0])

lemma dlit_3_10: "dlit 3 10 = Double 5404319552844595 (- 54)"
  by code_simp

lemma dceil_positive: "0 < m \<Longrightarrow> 0 < dceil (Double m e)"
proof (cases "0 \<le> e")
  case True
  assume "0 < m"
  with True show ?thesis by simp
next
  case False
  assume m: "0 < m"
  from m have "(- m) div 2 ^ nat (- e) < 0" by (intro div_neg_pos_less0) simp_all
  with False show ?thesis by simp
qed

text \<open>\<open>Math.ceil(n * 0.3)\<close> is 1 or more when \<open>n\<close> is.\<close>

lemma ceil_three_tenths_positive:
  assumes "0 < n"
  shows "0 < dceil (dmul (dnat n) (dlit 3 10))"
proof -
  from assms have n: "0 < int n" by simp
  from bit_length_positive [OF n] have "52 + bit_length 1 \<le> bit_length (int n) + 0 + 1074"
    by (simp add: bit_length_one)
  from round_double_positive [OF n _ this]
  obtain m1 e1 where d: "dnat n = Double m1 e1" and m1: "0 < m1"
    and e1: "bit_length (int n) \<le> e1 + 53 + 1"
    by (auto simp: dnat_def bit_length_one)
  from bit_length_positive [OF n] e1 have e: "- 53 \<le> e1" by simp
  from m1 have p: "0 < m1 * 5404319552844595" by simp
  from bit_length_positive [OF p] e
  have "52 + bit_length 1 \<le> bit_length (m1 * 5404319552844595) + (e1 + - 54) + 1074"
    by (simp add: bit_length_one)
  from round_double_positive [OF p _ this]
  obtain m e' where "round_double (m1 * 5404319552844595) 1 (e1 + - 54) = Double m e'" and "0 < m"
    by auto
  with d show ?thesis by (simp add: dlit_3_10 dceil_positive del: dceil.simps)
qed

subsection \<open>The selected sentences\<close>

text \<open>The selection is the scored list without the sentences that were not selected.\<close>

lemma topSentences_filter:
  "\<exists>chosen. topSentences sentences
     = filter (\<lambda>x. x \<in> chosen) (map (\<lambda>(i, x). score_sentence (length sentences) i x) (enumerate 0 sentences))
     \<and> chosen \<subseteq> set (map (\<lambda>(i, x). score_sentence (length sentences) i x) (enumerate 0 sentences))
     \<and> card chosen = min (min 5 (nat (dceil (dmul (dnat (length sentences)) (dlit 3 10)))))
                           (length sentences)"
proof -
  define scored where
    "scored = map (\<lambda>(i, x). score_sentence (length sentences) i x) (enumerate 0 sentences)"
  define k where "k = min 5 (nat (dceil (dmul (dnat (length sentences)) (dlit 3 10))))"
  define A where "A = take k (sort_by_score scored)"
  have ix: "map index scored = [0..<length sentences]" unfolding scored_def by (rule index_scored)
  then have so: "sorted (map index scored)" and di: "distinct (map index scored)" by simp_all
  from di have ds: "distinct scored" and inj: "inj_on index (set scored)"
    by (simp_all add: distinct_map)
  have sub: "set A \<subseteq> set scored"
    unfolding A_def sort_by_score_def using set_take_subset [of k "sort_key (\<lambda>x. - dvalue (score x)) scored"]
    by simp
  from ds have dA: "distinct A" unfolding A_def sort_by_score_def by simp
  with inj sub have "distinct (map index A)" by (auto simp: distinct_map intro: inj_on_subset)
  from sort_key_is_filter [OF so di sub this]
  have "topSentences sentences = filter (\<lambda>x. x \<in> set A) scored"
    by (simp add: topSentences_def Let_def sort_by_index_def A_def k_def scored_def)
  moreover from dA have "card (set A) = length A" by (rule distinct_card)
  then have "card (set A) = min k (length sentences)"
    by (simp add: A_def sort_by_score_def scored_def)
  ultimately show ?thesis using sub unfolding scored_def k_def by blast
qed

lemma join_nonempty: "xs \<noteq> [] \<Longrightarrow> hd xs \<noteq> [] \<Longrightarrow> join sep xs \<noteq> []"
  by (induction sep xs rule: join.induct) simp_all

lemma topSentences_joined_nonempty:
  assumes "3 < length (qualifying_sentences t)"
  shows "join ''. '' (map sentence (topSentences (qualifying_sentences t))) \<noteq> []"
proof -
  define qs where "qs = qualifying_sentences t"
  define scored where "scored = map (\<lambda>(i, x). score_sentence (length qs) i x) (enumerate 0 qs)"
  from topSentences_filter [of qs] obtain chosen where
    top: "topSentences qs = filter (\<lambda>x. x \<in> chosen) scored" and sub: "chosen \<subseteq> set scored"
    and card: "card chosen = min (min 5 (nat (dceil (dmul (dnat (length qs)) (dlit 3 10))))) (length qs)"
    unfolding scored_def by blast
  from assms have l: "0 < length qs" by (auto simp: qs_def)
  then have "0 < dceil (dmul (dnat (length qs)) (dlit 3 10))" by (rule ceil_three_tenths_positive)
  then have "0 < nat (dceil (dmul (dnat (length qs)) (dlit 3 10)))" by simp
  with card l have "0 < card chosen" by simp
  then obtain x where x: "x \<in> chosen" by (auto simp: card_gt_0_iff)
  with sub top have ne: "topSentences qs \<noteq> []" by (auto simp: filter_empty_conv)
  have "sentence y \<noteq> []" if "y \<in> set scored" for y
  proof -
    from that obtain i where "i < length qs" and y: "y = score_sentence (length qs) i (qs ! i)"
      by (auto simp: scored_def in_set_enumerate_eq)
    then have "qs ! i \<in> set qs" by simp
    with y show ?thesis
      by (auto simp: sentence_score_sentence qs_def qualifying_sentences_def)
  qed
  moreover from top have "set (topSentences qs) \<subseteq> set scored" by auto
  ultimately have "hd (map sentence (topSentences qs)) \<noteq> []"
    using ne by (cases "topSentences qs") auto
  with ne show ?thesis unfolding qs_def by (intro join_nonempty) simp_all
qed

text \<open>
  C7.  In \<open>generateBasicSummary\<close> the sentences selected by score are put back into the
  order of the transcript before they are joined: the selected sentences are a subsequence
  of the sentences of the transcript, with increasing index, and the summary of a
  transcript with more than three sentences is their join (cut to the maximum length).
\<close>

theorem summary_in_transcript_order:
  "subseq (map sentence (topSentences sentences)) (map trim sentences)
   \<and> sorted_wrt (<) (map index (topSentences sentences))
   \<and> (50 \<le> length t \<and> 3 < length (qualifying_sentences t) \<longrightarrow>
        generateBasicSummary t maxLength =
          (let joined = join ''. '' (map sentence (topSentences (qualifying_sentences t)))
           in case maxLength of
                None \<Rightarrow> joined
              | Some m \<Rightarrow> if length joined > m then take (m - 3) joined @ ''...'' else joined))"
proof (intro conjI impI)
  define scored where
    "scored = map (\<lambda>(i, x). score_sentence (length sentences) i x) (enumerate 0 sentences)"
  from topSentences_filter [of sentences] obtain chosen where
    top: "topSentences sentences = filter (\<lambda>x. x \<in> chosen) scored"
    unfolding scored_def by blast
  have ms: "map sentence scored = map trim sentences"
    unfolding scored_def by (rule sentence_scored)
  have "subseq (map sentence (filter (\<lambda>x. x \<in> chosen) scored)) (map sentence scored)"
    by (intro subseq_map subseq_filter_left)
  then show "subseq (map sentence (topSentences sentences)) (map trim sentences)"
    unfolding top ms .
  have ix: "map index scored = [0..<length sentences]" unfolding scored_def by (rule index_scored)
  then have "sorted (map index scored)" and "distinct (map index scored)" by simp_all
  then have "sorted (map index (filter (\<lambda>x. x \<in> chosen) scored))"
    and "distinct (map index (filter (\<lambda>x. x \<in> chosen) scored))"
    by (simp_all add: sorted_filter distinct_map_filter)
  with top show "sorted_wrt (<) (map index (topSentences sentences))"
    by (simp add: strict_sorted_iff)
next
  assume a: "50 \<le> length t \<and> 3 < length (qualifying_sentences t)"
  then have ne: "t \<noteq> []" by auto
  from a topSentences_joined_nonempty [of t]
  have j: "join ''. '' (map sentence (topSentences (qualifying_sentences t))) \<noteq> []" by simp
  from a ne j show "generateBasicSummary t maxLength =
          (let joined = join ''. '' (map sentence (topSentences (qualifying_sentences t)))
           in case maxLength of
                None \<Rightarrow> joined
              | Some m \<Rightarrow> if length joined > m then take (m - 3) joined @ ''...'' else joined)"
    by (simp add: generateBasicSummary_def Let_def substring_def split: option.splits)
qed

text \<open>
  A transcript of four sentences.  By score the last sentence comes first and the second
  sentence next; the two are selected, and the summary has them in the order of the
  transcript.
\<close>

theorem summary_in_transcript_order_witness:
  "qualifying_sentences ''Alpha beta gamma. We will decide it. Delta epsilon go. Must follow next.''
     = [''Alpha beta gamma'', '' We will decide it'', '' Delta epsilon go'', '' Must follow next'']
   \<and> map index (sort_by_score (map (\<lambda>(i, x). score_sentence 4 i x)
         (enumerate 0 [''Alpha beta gamma'', '' We will decide it'', '' Delta epsilon go'',
                       '' Must follow next''])))
     = [3, 1, 0, 2]
   \<and> subseq [''We will decide it'', ''Must follow next'']
         [''Alpha beta gamma'', ''We will decide it'', ''Delta epsilon go'', ''Must follow next'']
   \<and> generateBasicSummary
         ''Alpha beta gamma. We will decide it. Delta epsilon go. Must follow next.'' (Some 500)
     = ''We will decide it. Must follow next''"
proof -
  let ?t = "''Alpha beta gamma. We will decide it. Delta epsilon go. Must follow next.''"
  let ?qs = "[''Alpha beta gamma'', '' We will decide it'', '' Delta epsilon go'', '' Must follow next'']"
  have q: "qualifying_sentences ?t = ?qs" by code_simp
  have r: "map index (sort_by_score (map (\<lambda>(i, x). score_sentence 4 i x) (enumerate 0 ?qs)))
             = [3, 1, 0, 2]"
    by code_simp
  have s: "map sentence (topSentences ?qs) = [''We will decide it'', ''Must follow next'']"
    by code_simp
  have tr: "map trim ?qs
              = [''Alpha beta gamma'', ''We will decide it'', ''Delta epsilon go'', ''Must follow next'']"
    by code_simp
  note main = summary_in_transcript_order [of ?qs ?t "Some 500"]
  from main have "subseq (map sentence (topSentences ?qs)) (map trim ?qs)" by (rule conjunct1)
  then have sub: "subseq [''We will decide it'', ''Must follow next'']
      [''Alpha beta gamma'', ''We will decide it'', ''Delta epsilon go'', ''Must follow next'']"
    by (simp only: s tr)
  have l: "50 \<le> length ?t \<and> 3 < length (qualifying_sentences ?t)" by (simp add: q)
  from main have "50 \<le> length ?t \<and> 3 < length (qualifying_sentences ?t) \<longrightarrow>
      generateBasicSummary ?t (Some 500) =
        (let joined = join ''. '' (map sentence (topSentences (qualifying_sentences ?t)))
         in case Some 500 of
              None \<Rightarrow> joined
            | Some m \<Rightarrow> if length joined > m then take (m - 3) joined @ ''...'' else joined)"
    by (rule conjunct2 [THEN conjunct2])
  with l have "generateBasicSummary ?t (Some 500) =
        (let joined = join ''. '' (map sentence (topSentences (qualifying_sentences ?t)))
         in case Some 500 of
              None \<Rightarrow> joined
            | Some m \<Rightarrow> if length joined > m then take (m - 3) joined @ ''...'' else joined)"
    by (rule mp [rotated])
  then have g: "generateBasicSummary ?t (Some 500) = ''We will decide it. Must follow next''"
    by (simp add: q s)
  from q r sub g show ?thesis by (intro conjI)
qed

text \<open>
  \<open>TextProcessor.generateSummary\<close> joins its three best sentences in the order of their
  scores.  When the library splits the transcript below into its four sentences, the third
  one comes first in the summary.
\<close>

theorem text_processor_summary_counterexample:
  "generateSummary (\<lambda>t. Some [''Hi all.'', ''Ok then.'', ''We decided it will go.'', ''Bye.'']) 0
       ''Hi all. Ok then. We decided it will go. Bye.''
     = (''We decided it will go. Hi all. Ok then.'', 0)
   \<and> \<not> subseq [''We decided it will go.'', ''Hi all.'', ''Ok then.'']
         [''Hi all.'', ''Ok then.'', ''We decided it will go.'', ''Bye.'']"
  by code_simp

section \<open>What a group captures\<close>

definition is_letter :: "char \<Rightarrow> bool" where
  "is_letter c = (is_upper c \<or> is_lower c)"

text \<open>Under the \<open>i\<close> flag \<open>[A-Z]\<close> and \<open>[a-z]\<close> have the letters of both cases and nothing
  else, and \<open>\d\<close> has the digits only.\<close>

lemma class_has_ignore_case:
  "\<forall>c. (class_has True [Rng CHR ''A'' CHR ''Z''] c \<longrightarrow> is_letter c)
     \<and> (class_has True [Rng CHR ''a'' CHR ''z''] c \<longrightarrow> is_letter c)
     \<and> (class_has True [Digit] c \<longrightarrow> is_digit c)"
  by code_simp

lemma class_has_upper:
  assumes "class_has ic [Rng CHR ''A'' CHR ''Z''] c"
  shows "is_letter c"
proof (cases ic)
  case True
  with assms have "class_has True [Rng CHR ''A'' CHR ''Z''] c" by simp
  with class_has_ignore_case show ?thesis by blast
next
  case False
  with assms show ?thesis by (simp add: class_has_def is_letter_def is_upper_def)
qed

lemma class_has_lower:
  assumes "class_has ic [Rng CHR ''a'' CHR ''z''] c"
  shows "is_letter c"
proof (cases ic)
  case True
  with assms have "class_has True [Rng CHR ''a'' CHR ''z''] c" by simp
  with class_has_ignore_case show ?thesis by blast
next
  case False
  with assms show ?thesis by (simp add: class_has_def is_letter_def is_lower_def)
qed


text \<open>An expression without groups.\<close>

fun no_groups :: "rx \<Rightarrow> bool" where
  "no_groups (Grp n r) = False"
| "no_groups (Cat r1 r2) = (no_groups r1 \<and> no_groups r2)"
| "no_groups (Alt r1 r2) = (no_groups r1 \<and> no_groups r2)"
| "no_groups (Rep mn mx g r) = no_groups r"
| "no_groups r = True"

text \<open>\<open>caps_sound ic s Q r\<close>: whatever a group \<open>n\<close> of \<open>r\<close> matches in \<open>s\<close> has the
  property \<open>Q n\<close>.\<close>

fun caps_sound :: "bool \<Rightarrow> string \<Rightarrow> (nat \<Rightarrow> string \<Rightarrow> bool) \<Rightarrow> rx \<Rightarrow> bool" where
  "caps_sound ic s Q (Grp n r) =
     ((\<forall>p q c c'. p \<le> length s \<and> (q, c') \<in> set (ms ic r s p c) \<longrightarrow> Q n (substring s p q))
      \<and> caps_sound ic s Q r)"
| "caps_sound ic s Q (Cat r1 r2) = (caps_sound ic s Q r1 \<and> caps_sound ic s Q r2)"
| "caps_sound ic s Q (Alt r1 r2) = (caps_sound ic s Q r1 \<and> caps_sound ic s Q r2)"
| "caps_sound ic s Q (Rep mn mx g r) = caps_sound ic s Q r"
| "caps_sound ic s Q r = True"

lemma no_groups_caps_sound: "no_groups r \<Longrightarrow> caps_sound ic s Q r"
  by (induction r) simp_all

lemma rep_invariant:
  assumes b: "\<And>p c q c'. p \<le> N \<Longrightarrow> (q, c') \<in> set (f p c) \<Longrightarrow> p \<le> q \<and> q \<le> N"
    and i: "\<And>p c q c'. p \<le> N \<Longrightarrow> I c \<Longrightarrow> (q, c') \<in> set (f p c) \<Longrightarrow> I c'"
  shows "p \<le> N \<Longrightarrow> I c \<Longrightarrow> (q, c') \<in> set (rep f g n mn mx p c) \<Longrightarrow> I c'"
proof (induction n arbitrary: mn mx p c)
  case 0
  then show ?case by (simp split: if_splits)
next
  case (Suc n)
  from Suc.prems(3) consider
      (stop) "q = p" "c' = c"
    | (more) r d where "(r, d) \<in> set (f p c)" "(q, c') \<in> set (rep f g n (mn - 1) (dec_max mx) r d)"
    by (auto simp: Let_def split: if_splits)
  then show ?case
  proof cases
    case stop
    with Suc.prems(2) show ?thesis by simp
  next
    case more
    from b [OF Suc.prems(1) more(1)] have "r \<le> N" by simp
    moreover from i [OF Suc.prems(1,2) more(1)] have "I d" .
    ultimately show ?thesis using more(2) by (rule Suc.IH)
  qed
qed

lemma ms_caps:
  "caps_sound ic s Q r \<Longrightarrow> p \<le> length s \<Longrightarrow> (q, c') \<in> set (ms ic r s p c)
     \<Longrightarrow> \<forall>n g. c n = Some g \<longrightarrow> Q n g \<Longrightarrow> \<forall>n g. c' n = Some g \<longrightarrow> Q n g"
proof (induction r arbitrary: p c q c')
  case (Cat r1 r2)
  from Cat.prems(3) obtain m d where m: "(m, d) \<in> set (ms ic r1 s p c)"
    and q: "(q, c') \<in> set (ms ic r2 s m d)" by auto
  from Cat.prems(1) have s1: "caps_sound ic s Q r1" and s2: "caps_sound ic s Q r2" by simp_all
  from ms_bounds [OF Cat.prems(2) m] have "m \<le> length s" by simp
  moreover from Cat.IH(1) [OF s1 Cat.prems(2) m Cat.prems(4)] have "\<forall>n g. d n = Some g \<longrightarrow> Q n g" .
  ultimately show ?case using Cat.IH(2) [OF s2 _ q] by blast
next
  case (Alt r1 r2)
  from Alt.prems(3) have "(q, c') \<in> set (ms ic r1 s p c) \<or> (q, c') \<in> set (ms ic r2 s p c)"
    by simp
  moreover from Alt.prems(1) have "caps_sound ic s Q r1" and "caps_sound ic s Q r2" by simp_all
  ultimately show ?case using Alt.IH(1) [OF _ Alt.prems(2) _ Alt.prems(4)]
      Alt.IH(2) [OF _ Alt.prems(2) _ Alt.prems(4)]
    by blast
next
  case (Rep mn mx g r)
  from Rep.prems(1) have sr: "caps_sound ic s Q r" by simp
  from Rep.prems(3) have q: "(q, c') \<in> set (rep (ms ic r s) g (mn + (length s - p)) mn mx p c)"
    by simp
  show ?case
  proof (rule rep_invariant [of "length s" "ms ic r s" "\<lambda>c. \<forall>n g. c n = Some g \<longrightarrow> Q n g",
        OF _ _ Rep.prems(2) Rep.prems(4) q])
    fix p c q c'
    assume "p \<le> length s" "(q, c') \<in> set (ms ic r s p c)"
    then show "p \<le> q \<and> q \<le> length s" by (rule ms_bounds)
  next
    fix p c q c'
    assume "p \<le> length s" and I: "\<forall>n g. c n = Some g \<longrightarrow> Q n g"
      and "(q, c') \<in> set (ms ic r s p c)"
    with sr have "caps_sound ic s Q r" "p \<le> length s" "(q, c') \<in> set (ms ic r s p c)"
      by simp_all
    then show "\<forall>n g. c' n = Some g \<longrightarrow> Q n g" using I by (rule Rep.IH)
  qed
next
  case (Grp n r)
  from Grp.prems(3) obtain d where d: "(q, d) \<in> set (ms ic r s p c)"
    and c': "c' = d(n \<mapsto> substring s p q)" by auto
  from Grp.prems(1) have sr: "caps_sound ic s Q r"
    and Q: "\<forall>p q c c'. p \<le> length s \<and> (q, c') \<in> set (ms ic r s p c) \<longrightarrow> Q n (substring s p q)"
    by simp_all
  from Grp.IH [OF sr Grp.prems(2) d Grp.prems(4)] have "\<forall>n g. d n = Some g \<longrightarrow> Q n g" .
  moreover from Q Grp.prems(2) d have "Q n (substring s p q)" by blast
  ultimately show ?case using c' by simp
next
  case Eps
  then show ?case by simp
next
  case (Cls its)
  from Cls.prems(3) have "c' = c" by (simp split: if_splits)
  with Cls.prems(4) show ?case by simp
next
  case (NCls its)
  from NCls.prems(3) have "c' = c" by (simp split: if_splits)
  with NCls.prems(4) show ?case by simp
next
  case Dot
  from Dot.prems(3) have "c' = c" by (simp split: if_splits)
  with Dot.prems(4) show ?case by simp
next
  case Bol
  from Bol.prems(3) have "c' = c" by (simp split: if_splits)
  with Bol.prems(4) show ?case by simp
next
  case Eol
  from Eol.prems(3) have "c' = c" by (simp split: if_splits)
  with Eol.prems(4) show ?case by simp
next
  case Wb
  from Wb.prems(3) have "c' = c" by (simp split: if_splits)
  with Wb.prems(4) show ?case by simp
qed

text \<open>The groups of a match that \<open>exec\<close> returns.\<close>

lemma exec_caps:
  assumes "global re" and "caps_sound (ignoreCase re) s Q (source re)"
    and "exec re s li = (Some m, li')" and "m_groups m n = Some g"
  shows "Q n g"
proof -
  from exec_global_SomeD [OF assms(1,3)]
  have "search (ignoreCase re) (source re) s li = Some m" by simp
  from search_SomeD [OF this]
  have "m_index m \<le> length s"
    and "(m_end m, m_groups m) \<in> set (ms (ignoreCase re) (source re) s (m_index m) Map.empty)"
    by simp_all
  from ms_caps [OF assms(2) this] assms(4) show ?thesis by simp
qed

lemma ms_Cat_D:
  "(q, c') \<in> set (ms ic (Cat r1 r2) s p c) \<Longrightarrow>
     \<exists>m d. (m, d) \<in> set (ms ic r1 s p c) \<and> (q, c') \<in> set (ms ic r2 s m d)"
  by auto

text \<open>What a repeated class matches.\<close>

lemma rep_cls:
  assumes f: "\<And>p c. f p c = (if p < N \<and> P p then [(p + 1, c)] else [])"
  shows "p \<le> N \<Longrightarrow> (q, c') \<in> set (rep f g n mn mx p c) \<Longrightarrow>
     c' = c \<and> p + mn \<le> q \<and> q \<le> N \<and> (\<forall>k. mx = Some k \<longrightarrow> q \<le> p + k)
     \<and> (\<forall>i. p \<le> i \<and> i < q \<longrightarrow> P i)"
proof (induction n arbitrary: mn mx p)
  case 0
  then show ?case by (auto split: if_splits)
next
  case (Suc n)
  from Suc.prems(2) consider
      (stop) "mn = 0" "q = p" "c' = c"
    | (more) r d where "mx \<noteq> Some 0" "(r, d) \<in> set (f p c)"
        "(q, c') \<in> set (rep f g n (mn - 1) (dec_max mx) r d)"
    by (auto simp: Let_def split: if_splits)
  then show ?case
  proof cases
    case stop
    with Suc.prems(1) show ?thesis by auto
  next
    case more
    from more(2) have r: "r = p + 1" "d = c" "p < N" "P p"
      by (simp_all add: f split: if_splits)
    from r(3) have "p + 1 \<le> N" by simp
    from Suc.IH [OF this, of "mn - 1" "dec_max mx"] more(3) r(1,2)
    have ih: "c' = c" "p + 1 + (mn - 1) \<le> q" "q \<le> N"
      "\<forall>k. dec_max mx = Some k \<longrightarrow> q \<le> p + 1 + k"
      "\<forall>i. p + 1 \<le> i \<and> i < q \<longrightarrow> P i"
      by simp_all
    have "\<forall>k. mx = Some k \<longrightarrow> q \<le> p + k"
    proof (intro allI impI)
      fix k assume k: "mx = Some k"
      with more(1) have "k \<noteq> 0" by simp
      with ih(4) k show "q \<le> p + k" by simp
    qed
    moreover have "\<forall>i. p \<le> i \<and> i < q \<longrightarrow> P i"
    proof (intro allI impI)
      fix i assume i: "p \<le> i \<and> i < q"
      show "P i"
      proof (cases "i = p")
        case True
        with r(4) show ?thesis by simp
      next
        case False
        with i ih(5) show ?thesis by simp
      qed
    qed
    ultimately show ?thesis using ih(1,2,3) by simp
  qed
qed

lemma ms_rep_cls:
  assumes "p \<le> length s" and "(q, c') \<in> set (ms ic (Rep mn mx g (Cls its)) s p c)"
  shows "c' = c \<and> p + mn \<le> q \<and> q \<le> length s \<and> (\<forall>k. mx = Some k \<longrightarrow> q \<le> p + k)
     \<and> (\<forall>i. p \<le> i \<and> i < q \<longrightarrow> class_has ic its (s ! i))"
proof -
  have f: "ms ic (Cls its) s p c
             = (if p < length s \<and> class_has ic its (s ! p) then [(p + 1, c)] else [])" for p c
    by simp
  from assms(2) have "(q, c') \<in> set (rep (ms ic (Cls its) s) g (mn + (length s - p)) mn mx p c)"
    by simp
  from rep_cls [of "ms ic (Cls its) s" "length s" "\<lambda>i. class_has ic its (s ! i)", OF f assms(1) this]
  show ?thesis .
qed

lemma substring_length: "q \<le> length s \<Longrightarrow> length (substring s p q) = q - p"
  by (simp add: substring_def)

lemma substring_nth: "q \<le> length s \<Longrightarrow> j < q - p \<Longrightarrow> substring s p q ! j = s ! (p + j)"
  by (simp add: substring_def)

lemma substring_all:
  assumes "q \<le> length s" and "\<forall>i. p \<le> i \<and> i < q \<longrightarrow> P (s ! i)"
  shows "list_all P (substring s p q)"
  using assms by (simp add: list_all_length substring_length substring_nth)

text \<open>A capitalized word, \<open>[A-Z][a-z]+\<close>, matches two or more letters; with the \<open>i\<close> flag
  they are of any case.\<close>

lemma ms_capital_word:
  assumes "p \<le> length s" and "(q, c') \<in> set (ms ic capital_word s p c)"
  shows "2 \<le> length (substring s p q) \<and> list_all is_letter (substring s p q)"
proof -
  from assms(2)
  have "(q, c') \<in> set (ms ic (Cat (Cls [Rng CHR ''A'' CHR ''Z''])
                                  (Rep 1 None True (Cls [Rng CHR ''a'' CHR ''z'']))) s p c)"
    by (simp only: capital_word_def AZ_def az_def rplus_def)
  from ms_Cat_D [OF this]
  obtain m d where m: "(m, d) \<in> set (ms ic (Cls [Rng CHR ''A'' CHR ''Z'']) s p c)"
    and q: "(q, c') \<in> set (ms ic (Rep 1 None True (Cls [Rng CHR ''a'' CHR ''z''])) s m d)"
    by blast
  from m have m': "m = p + 1" "p < length s" "class_has ic [Rng CHR ''A'' CHR ''Z''] (s ! p)"
    by (simp_all split: if_splits)
  then have "m \<le> length s" by simp
  from ms_rep_cls [OF this q]
  have r: "m + 1 \<le> q" "q \<le> length s"
    "\<forall>i. m \<le> i \<and> i < q \<longrightarrow> class_has ic [Rng CHR ''a'' CHR ''z''] (s ! i)"
    by simp_all
  have "\<forall>i. p \<le> i \<and> i < q \<longrightarrow> is_letter (s ! i)"
  proof (intro allI impI)
    fix i assume i: "p \<le> i \<and> i < q"
    show "is_letter (s ! i)"
    proof (cases "i = p")
      case True
      with m'(3) show ?thesis by (simp add: class_has_upper)
    next
      case False
      with i m'(1) r(3) have "class_has ic [Rng CHR ''a'' CHR ''z''] (s ! i)" by simp
      then show ?thesis by (rule class_has_lower)
    qed
  qed
  with r(2) have "list_all is_letter (substring s p q)" by (rule substring_all)
  moreover from r(1,2) m'(1) have "2 \<le> length (substring s p q)" by (simp add: substring_length)
  ultimately show ?thesis by simp
qed


lemma no_groups_cats: "\<forall>r \<in> set rs. no_groups r \<Longrightarrow> no_groups (cats rs)"
  by (induction rs rule: cats.induct) simp_all

lemma no_groups_alts: "\<forall>r \<in> set rs. no_groups r \<Longrightarrow> no_groups (alts rs)"
  by (induction rs rule: alts.induct) simp_all

lemma no_groups_lit: "no_groups (lit w)"
  unfolding lit_def by (rule no_groups_cats) (simp add: chr_def)

lemma no_groups_words: "no_groups (words ws)"
  unfolding words_def by (rule no_groups_alts) (simp add: no_groups_lit)

lemma no_groups_capital_word: "no_groups capital_word"
  by (simp add: capital_word_def AZ_def az_def rplus_def)

section \<open>Claims about the participants\<close>

text \<open>The first group of a name pattern captures two or more letters.\<close>

lemma namePatterns_caps:
  assumes "re \<in> set namePatterns"
  shows "caps_sound (ignoreCase re) s (\<lambda>n g. 2 \<le> length g \<and> list_all is_letter g) (source re)"
proof -
  have g: "caps_sound ic s (\<lambda>n g. 2 \<le> length g \<and> list_all is_letter g) (Grp (Suc 0) capital_word)" for ic
    by (simp add: no_groups_capital_word no_groups_caps_sound) (blast dest: ms_capital_word)
  have n: "caps_sound ic s (\<lambda>n g. 2 \<le> length g \<and> list_all is_letter g) r" if "no_groups r" for ic r
    using that by (rule no_groups_caps_sound)
  from assms show ?thesis
    unfolding namePatterns_def regex_def
    by (auto simp: g n no_groups_words rplus_def sp_def chr_def simp del: caps_sound.simps(1))
qed

text \<open>
  C9.  The participant identifier returns at most 10 names, all different; every name has
  more than 2 and fewer than 20 characters, and consists of letters.
\<close>

theorem participants_are_letter_words:
  "\<exists>names. identifyParticipants t = Some names \<and> length names \<le> 10 \<and> distinct names
     \<and> (\<forall>n \<in> set names. 2 < length n \<and> length n < 20 \<and> list_all is_letter n)"
proof -
  let ?P = "\<lambda>names :: string list. distinct names
              \<and> (\<forall>n \<in> set names. 2 < length n \<and> length n < 20 \<and> list_all is_letter n)"
  from identifyParticipants_total [of t] obtain names where n: "identifyParticipants t = Some names" ..
  have "?P (take 10 [])" by simp
  have k: "\<forall>re \<in> set namePatterns. keeps ?P participant_body re t"
  proof
    fix re assume re: "re \<in> set namePatterns"
    from re namePatterns_consume have gl: "global re" by simp
    show "keeps ?P participant_body re t"
      unfolding keeps_def
    proof (intro allI impI, elim conjE)
      fix st m st' li li'
      assume d: "distinct st"
        and a: "\<forall>n \<in> set st. 2 < length n \<and> length n < 20 \<and> list_all is_letter n"
        and e: "exec re t li = (Some m, li')" and b: "participant_body st m = Inr st'"
      from b obtain name where g: "m_groups m 1 = Some name"
        by (auto simp: participant_body_def split: option.splits)
      from exec_caps [OF gl namePatterns_caps [OF re] e g]
      have "list_all is_letter name" by simp
      with b g d a show "distinct st'
          \<and> (\<forall>n \<in> set st'. 2 < length n \<and> length n < 20 \<and> list_all is_letter n)"
        by (auto simp: participant_body_def split: if_splits)
    qed
  qed
  have "?P names"
  proof (cases "for_patterns participant_body namePatterns t []")
    case None
    with n show ?thesis by (simp add: identifyParticipants_def)
  next
    case (Some x)
    show ?thesis
    proof (cases x)
      case (Inl e)
      with Some n show ?thesis by (simp add: identifyParticipants_def)
    next
      case (Inr st)
      with Some have f: "for_patterns participant_body namePatterns t [] = Some (Inr st)" by simp
      from for_patterns_invariant [where P = ?P, OF f _ k] have "?P st" by simp
      moreover from f n have "names = take 10 st" by (simp add: identifyParticipants_def)
      ultimately show ?thesis by (auto dest: in_set_takeD)
    qed
  qed
  moreover from n have "length names \<le> 10"
    by (auto simp: identifyParticipants_def split: option.splits sum.splits)
  ultimately show ?thesis using n by blast
qed

theorem participants_are_letter_words_witness:
  "identifyParticipants ''Bob: hi. Amy said ok. thanks Carol'' = Some [''Amy'', ''Bob'', ''Carol'']
     \<and> length [''Amy'', ''Bob'', ''Carol''] \<le> 10 \<and> distinct [''Amy'', ''Bob'', ''Carol'']
     \<and> list_all (\<lambda>n. 2 < length n \<and> length n < 20 \<and> list_all is_letter n)
           [''Amy'', ''Bob'', ''Carol'']"
proof -
  have e: "identifyParticipants ''Bob: hi. Amy said ok. thanks Carol''
             = Some [''Amy'', ''Bob'', ''Carol'']"
    by code_simp
  from participants_are_letter_words [of "''Bob: hi. Amy said ok. thanks Carol''"] e
  show ?thesis by (simp only: list_all_iff) blast
qed

text \<open>A capitalised name of two characters before \<open>said\<close> is not accepted: the guard is
  \<open>name.length > 2\<close>.  A name of three characters is.\<close>

theorem two_letter_name_counterexample:
  "identifyParticipants ''Al said hello.'' = Some []
     \<and> identifyParticipants ''Ali said hello.'' = Some [''Ali'']"
  by code_simp

section \<open>Claims about the ticket mentions\<close>






























end
